theory Spec2Isabelle
  imports Complex_Main "HOL-Library.Log_Nat"
begin

section \<open>Python floats\<close>

text \<open>
  Hours are Python floats (IEEE 754 binary64).  A finite float is modelled by the
  rational number it denotes; every arithmetic operation of the source is the
  exact operation followed by \<open>fl\<close>, rounding to the nearest binary64 value, ties
  to even, with gradual underflow (the spacing never drops below \<open>2^-1074\<close>).
  Overflow to infinity is not modelled.
\<close>

type_synonym pyfloat = rat

definition pow2 :: "int \<Rightarrow> rat" where
  "pow2 e = (if 0 \<le> e then 2 ^ nat e else 1 / 2 ^ nat (- e))"

definition round_half_even :: "rat \<Rightarrow> int" where
  "round_half_even x =
     (let f = \<lfloor>x\<rfloor>; d = x - of_int f
      in if d < 1 / 2 then f else if 1 / 2 < d then f + 1
         else if even f then f else f + 1)"

text \<open>\<open>ilog2 x\<close> is the binary exponent of a positive \<open>x\<close>: \<open>2^e \<le> x < 2^(e+1)\<close>.\<close>

definition ilog2 :: "rat \<Rightarrow> int" where
  "ilog2 x = (case quotient_of x of (p, q) \<Rightarrow>
     (let e = bitlen p - bitlen q in if pow2 e \<le> x then e else e - 1))"

definition fl :: "rat \<Rightarrow> pyfloat" where
  "fl x = (if x = 0 then 0
           else (let e = max (ilog2 \<bar>x\<bar>) (- 1022); ulp = pow2 (e - 52)
                 in of_int (round_half_even (x / ulp)) * ulp))"

text \<open>\<open>a / b\<close>, \<open>a * b\<close> and \<open>a - b\<close> on floats; \<open>float(n)\<close> of an int.\<close>

definition fdiv :: "pyfloat \<Rightarrow> pyfloat \<Rightarrow> pyfloat" where
  "fdiv a b = fl (a / b)"

definition fmul :: "pyfloat \<Rightarrow> pyfloat \<Rightarrow> pyfloat" where
  "fmul a b = fl (a * b)"

definition fsub :: "pyfloat \<Rightarrow> pyfloat \<Rightarrow> pyfloat" where
  "fsub a b = fl (a - b)"

definition float_of_int :: "int \<Rightarrow> pyfloat" where
  "float_of_int n = fl (of_int n)"

text \<open>
  \<open>round(x, 2)\<close>: CPython converts the float to the decimal with two fractional
  digits nearest to its exact value (ties to even) and reads that decimal back
  as a float.
\<close>

definition py_round2 :: "pyfloat \<Rightarrow> pyfloat" where
  "py_round2 x = fl (of_int (round_half_even (x * 100)) / 100)"

section \<open>Dates\<close>

text \<open>
  A \<open>datetime\<close> is held as the proleptic Gregorian ordinal of its local date
  (\<open>toordinal()\<close>; day 1 is 0001-01-01), the microseconds since local midnight,
  and the UTC offset in microseconds (\<open>None\<close> for a naive datetime).  Python
  accepts the ordinals \<open>1 .. MAXORDINAL\<close> (years 1 to 9999).
\<close>

record datetime =
  ordinal :: int
  micros :: int
  utcoffset :: "int option"

datatype error = OverflowError | ValueError

definition MAXORDINAL :: int where
  "MAXORDINAL = 3652059"

definition weekday :: "datetime \<Rightarrow> int" where
  "weekday dt = (ordinal dt + 6) mod 7"

text \<open>The point in time a datetime denotes, in microseconds; comparisons use it.\<close>

definition instant :: "datetime \<Rightarrow> int" where
  "instant dt = ordinal dt * 86400000000 + micros dt -
     (case utcoffset dt of None \<Rightarrow> 0 | Some off \<Rightarrow> off)"

text \<open>\<open>dt + timedelta(days=k)\<close> raises OverflowError outside the supported years.\<close>

definition add_days :: "datetime \<Rightarrow> int \<Rightarrow> error + datetime" where
  "add_days dt k =
     (let n = ordinal dt + k
      in if 1 \<le> n \<and> n \<le> MAXORDINAL then Inr (dt\<lparr>ordinal := n\<rparr>) else Inl OverflowError)"

subsection \<open>Calendar arithmetic of the datetime module\<close>

definition is_leap :: "int \<Rightarrow> bool" where
  "is_leap year = (year mod 4 = 0 \<and> (year mod 100 \<noteq> 0 \<or> year mod 400 = 0))"

definition days_before_year :: "int \<Rightarrow> int" where
  "days_before_year year =
     (let y = year - 1 in y * 365 + y div 4 - y div 100 + y div 400)"

definition DAYS_IN_MONTH :: "int list" where
  "DAYS_IN_MONTH = [- 1, 31, 28, 31, 30, 31, 30, 31, 31, 30, 31, 30, 31]"

definition DAYS_BEFORE_MONTH :: "int list" where
  "DAYS_BEFORE_MONTH = [- 1, 0, 31, 59, 90, 120, 151, 181, 212, 243, 273, 304, 334]"

definition days_before_month :: "int \<Rightarrow> int \<Rightarrow> int" where
  "days_before_month year month =
     DAYS_BEFORE_MONTH ! nat month + (if 2 < month \<and> is_leap year then 1 else 0)"

definition ymd2ord :: "int \<Rightarrow> int \<Rightarrow> int \<Rightarrow> int" where
  "ymd2ord year month day = days_before_year year + days_before_month year month + day"

definition ord2ymd :: "int \<Rightarrow> int \<times> int \<times> int" where
  "ord2ymd n0 =
     (let n = n0 - 1;
          n400 = n div 146097; n = n mod 146097;
          n100 = n div 36524; n = n mod 36524;
          n4 = n div 1461; n = n mod 1461;
          n1 = n div 365; n = n mod 365;
          year = n400 * 400 + 1 + n100 * 100 + n4 * 4 + n1
      in if n1 = 4 \<or> n100 = 4 then (year - 1, 12, 31)
         else
           (let leapyear = (n1 = 3 \<and> (n4 \<noteq> 24 \<or> n100 = 3));
                month = (n + 50) div 32;
                preceding = DAYS_BEFORE_MONTH ! nat month +
                            (if 2 < month \<and> leapyear then 1 else 0)
            in if n < preceding
               then (let month' = month - 1;
                         preceding' = preceding -
                           (DAYS_IN_MONTH ! nat month' +
                            (if month' = 2 \<and> leapyear then 1 else 0))
                     in (year, month', n - preceding' + 1))
               else (year, month, n - preceding + 1)))"

definition isoweek1monday :: "int \<Rightarrow> int" where
  "isoweek1monday year =
     (let firstday = ymd2ord year 1 1;
          firstweekday = (firstday + 6) mod 7;
          week1monday = firstday - firstweekday
      in if 3 < firstweekday then week1monday + 7 else week1monday)"

text \<open>\<open>isocalendar()\<close> of the date with ordinal \<open>today\<close>: ISO year, ISO week, ISO weekday.\<close>

definition isocalendar :: "int \<Rightarrow> int \<times> int \<times> int" where
  "isocalendar today =
     (let year = fst (ord2ymd today);
          week1monday = isoweek1monday year;
          week = (today - week1monday) div 7;
          day = (today - week1monday) mod 7
      in if week < 0
         then (let week1monday' = isoweek1monday (year - 1)
               in (year - 1, (today - week1monday') div 7 + 1,
                   (today - week1monday') mod 7 + 1))
         else if 52 \<le> week \<and> isoweek1monday (year + 1) \<le> today
         then (year + 1, 1, day + 1)
         else (year, week + 1, day + 1))"

subsection \<open>Formatting\<close>

fun decimal :: "nat \<Rightarrow> string" where
  "decimal n =
     (if n < 10 then [''0123456789'' ! n]
      else decimal (n div 10) @ [''0123456789'' ! (n mod 10)])"

definition zfill :: "nat \<Rightarrow> string \<Rightarrow> string" where
  "zfill w s = replicate (w - length s) (CHR ''0'') @ s"

text \<open>
  \<open>dt.strftime("%G-[W]%V")\<close>: the ISO 8601 week-based year, the literal text
  \<open>-[W]\<close>, and the ISO week number in two digits.  The year is written with four
  digits (for years below 1000 the padding of \<open>%G\<close> depends on the platform).
\<close>

definition iso_week_label :: "datetime \<Rightarrow> string" where
  "iso_week_label dt =
     (case isocalendar (ordinal dt) of (y, w, d) \<Rightarrow>
        zfill 4 (decimal (nat y)) @ ''-[W]'' @ zfill 2 (decimal (nat w)))"

text \<open>\<open>dt.date().isoformat()\<close>: \<open>YYYY-MM-DD\<close>.\<close>

definition date_isoformat :: "datetime \<Rightarrow> string" where
  "date_isoformat dt =
     (case ord2ymd (ordinal dt) of (y, m, d) \<Rightarrow>
        zfill 4 (decimal (nat y)) @ ''-'' @ zfill 2 (decimal (nat m)) @ ''-'' @
        zfill 2 (decimal (nat d)))"

subsection \<open>mondays_between\<close>

text \<open>
  \<open>rrule(WEEKLY, byweekday=MO, dtstart=s, until=end_dt)\<close> of dateutil: it refuses a
  \<open>dtstart\<close> and an \<open>until\<close> of which only one carries a time zone, drops the
  microseconds of \<open>dtstart\<close>, and yields the Mondays on or after \<open>dtstart\<close>, at
  \<open>dtstart\<close>'s time of day and in its zone, while they are not later than \<open>until\<close>
  and lie in the supported years.
\<close>

function rrule_iter :: "datetime \<Rightarrow> datetime \<Rightarrow> datetime list" where
  "rrule_iter d until =
     (if MAXORDINAL < ordinal d \<or> instant until < instant d then []
      else d # rrule_iter (d\<lparr>ordinal := ordinal d + 7\<rparr>) until)"
  by pat_completeness auto
termination
  by (relation "measure (\<lambda>(d, until). nat (MAXORDINAL + 1 - ordinal d))") auto

declare rrule_iter.simps [simp del]

definition rrule_weekly_mo :: "datetime \<Rightarrow> datetime \<Rightarrow> error + datetime list" where
  "rrule_weekly_mo dtstart until =
     (if (utcoffset dtstart = None) \<noteq> (utcoffset until = None) then Inl ValueError
      else
        (let d0 = dtstart\<lparr>micros := micros dtstart - micros dtstart mod 1000000\<rparr>;
             first = d0\<lparr>ordinal := ordinal d0 + (7 - weekday d0) mod 7\<rparr>
         in Inr (rrule_iter first until)))"

definition mondays_between :: "datetime \<Rightarrow> datetime \<Rightarrow> error + datetime list" where
  "mondays_between start_dt end_dt =
     (if weekday start_dt \<noteq> 0
      then (case add_days start_dt (7 - weekday start_dt) of
              Inl err \<Rightarrow> Inl err
            | Inr s \<Rightarrow> rrule_weekly_mo s end_dt)
      else rrule_weekly_mo start_dt end_dt)"

section \<open>The allocation store\<close>

text \<open>
  The Allocations database as the Notion client shows it: pages in a fixed query
  order, each with an id, a title, two relations (lists of page ids) and a number.
  \<open>writes\<close> records every \<open>pages.update\<close> and \<open>pages.create\<close> request sent.
\<close>

record allocation =
  page_id :: nat
  alloc_name :: string
  task_rel :: "string list"
  week_rel :: "string list"
  planned_hours :: "pyfloat option"

text \<open>The \<open>properties\<close> argument of a request: only the listed properties are present.\<close>

record properties =
  p_Name :: "string option"
  p_Task :: "string list option"
  p_Week :: "string list option"
  p_Planned_Hours :: "pyfloat option"

datatype api_write = Pages_update nat properties | Pages_create properties

record notion =
  allocs :: "allocation list"
  writes :: "api_write list"

definition set_properties :: "properties \<Rightarrow> allocation \<Rightarrow> allocation" where
  "set_properties ps a =
     a\<lparr>alloc_name := (case p_Name ps of None \<Rightarrow> alloc_name a | Some v \<Rightarrow> v),
       task_rel := (case p_Task ps of None \<Rightarrow> task_rel a | Some v \<Rightarrow> v),
       week_rel := (case p_Week ps of None \<Rightarrow> week_rel a | Some v \<Rightarrow> v),
       planned_hours := (case p_Planned_Hours ps of None \<Rightarrow> planned_hours a | Some v \<Rightarrow> Some v)\<rparr>"

text \<open>The filter of \<open>upsert_allocation\<close>: Task contains \<open>task_id\<close> and Week contains \<open>week_id\<close>.\<close>

definition databases_query :: "string \<Rightarrow> string \<Rightarrow> notion \<Rightarrow> allocation list" where
  "databases_query task_id week_id st =
     filter (\<lambda>a. task_id \<in> set (task_rel a) \<and> week_id \<in> set (week_rel a)) (allocs st)"

definition pages_update :: "nat \<Rightarrow> properties \<Rightarrow> notion \<Rightarrow> notion" where
  "pages_update pid ps st =
     st\<lparr>allocs := map (\<lambda>a. if page_id a = pid then set_properties ps a else a) (allocs st),
        writes := writes st @ [Pages_update pid ps]\<rparr>"

definition fresh_page_id :: "allocation list \<Rightarrow> nat" where
  "fresh_page_id as = Suc (fold max (map page_id as) 0)"

definition pages_create :: "properties \<Rightarrow> notion \<Rightarrow> notion" where
  "pages_create ps st =
     st\<lparr>allocs := allocs st @
          [set_properties ps
             \<lparr>page_id = fresh_page_id (allocs st), alloc_name = [], task_rel = [],
              week_rel = [], planned_hours = None\<rparr>],
        writes := writes st @ [Pages_create ps]\<rparr>"

section \<open>upsert_allocation\<close>

text \<open>The separator of the page title: space, middle dot (U+00B7), space.\<close>

definition name_sep :: string where
  "name_sep = [CHR '' '', CHR 0xB7, CHR '' '']"

definition upsert_allocation ::
  "string \<Rightarrow> string \<Rightarrow> string \<Rightarrow> string \<Rightarrow> pyfloat \<Rightarrow> notion \<Rightarrow> string \<times> notion" where
  "upsert_allocation task_id task_name week_id week_label hours st =
     (case databases_query task_id week_id st of
        a # _ \<Rightarrow>
          (''updated'',
           pages_update (page_id a)
             \<lparr>p_Name = None, p_Task = None, p_Week = None,
              p_Planned_Hours = Some (py_round2 hours)\<rparr> st)
      | [] \<Rightarrow>
          (''created'',
           pages_create
             \<lparr>p_Name = Some (task_name @ name_sep @ week_label),
              p_Task = Some [task_id], p_Week = Some [week_id],
              p_Planned_Hours = Some (py_round2 hours)\<rparr> st))"

text \<open>At most one allocation page per (task, week) pair.\<close>

definition at_most_one :: "notion \<Rightarrow> bool" where
  "at_most_one st = (\<forall>t w. length (databases_query t w st) \<le> 1)"

section \<open>run\<close>

text \<open>
  A task page as \<open>run\<close> reads it: its id, the plain texts of its title items, the
  parsed Start and Due datetimes, and the number of "Hours Est (h)" (\<open>None\<close> when
  the property is absent or empty).
\<close>

record task =
  task_id :: string
  title :: "string list"
  start :: datetime
  due :: datetime
  hours_est :: "rat option"

definition P_WEEK_START :: string where
  "P_WEEK_START = ''Week Start''"

text \<open>
  Lines 147 to 150: the week id of a bucket.  \<open>not week_id\<close> holds for \<open>None\<close> and
  for the empty string; \<open>P_WEEK_START in idx_by_date\<close> asks whether the date index
  has the key \<open>"Week Start"\<close>.
\<close>

definition falsy :: "string option \<Rightarrow> bool" where
  "falsy v = (case v of None \<Rightarrow> True | Some x \<Rightarrow> x = [])"

definition resolve_week ::
  "(string \<rightharpoonup> string) \<Rightarrow> (string \<rightharpoonup> string) \<Rightarrow> datetime \<Rightarrow> string option" where
  "resolve_week idx_by_title idx_by_date w =
     (let label = iso_week_label w;
          week_id = idx_by_title label
      in if falsy week_id \<and> idx_by_date P_WEEK_START \<noteq> None
         then idx_by_date (date_isoformat w)
         else week_id)"

text \<open>
  Line 154: the hours of bucket \<open>i\<close> of \<open>n\<close>.
\<close>

definition bucket_hours :: "pyfloat \<Rightarrow> nat \<Rightarrow> pyfloat \<Rightarrow> pyfloat \<Rightarrow> nat \<Rightarrow> pyfloat" where
  "bucket_hours est n per_week carry i =
     (if i = n - 1 \<and> 0 < est then carry else per_week)"

text \<open>
  Lines 146 to 157: the loop over \<open>enumerate(weeks)\<close>, from index \<open>i\<close> on.  The state
  is the store and the two counters.
\<close>

fun alloc_loop ::
  "(string \<rightharpoonup> string) \<Rightarrow> (string \<rightharpoonup> string) \<Rightarrow> string \<Rightarrow> string \<Rightarrow>
   pyfloat \<Rightarrow> nat \<Rightarrow> pyfloat \<Rightarrow> pyfloat \<Rightarrow> nat \<Rightarrow> datetime list \<Rightarrow>
   notion \<times> nat \<times> nat \<Rightarrow> notion \<times> nat \<times> nat" where
  "alloc_loop idx_by_title idx_by_date tid name est n per_week carry i [] acc = acc"
| "alloc_loop idx_by_title idx_by_date tid name est n per_week carry i (w # ws)
     (st, created, updated) =
     (let label = iso_week_label w;
          week_id = resolve_week idx_by_title idx_by_date w
      in if falsy week_id
         then alloc_loop idx_by_title idx_by_date tid name est n per_week carry (i + 1) ws
                (st, created, updated)
         else
           (let hrs = bucket_hours est n per_week carry i;
                (res, st') = upsert_allocation tid name (case_option [] id week_id) label hrs st
            in alloc_loop idx_by_title idx_by_date tid name est n per_week carry (i + 1) ws
                 (st', created + (if res = ''created'' then 1 else 0),
                  updated + (if res = ''updated'' then 1 else 0))))"

text \<open>Lines 135 and 136: \<open>float(est)\<close>, or \<open>0.0\<close> without a number.\<close>

definition est_of :: "task \<Rightarrow> pyfloat" where
  "est_of t = (case hours_est t of None \<Rightarrow> 0 | Some v \<Rightarrow> fl v)"

definition name_of :: "task \<Rightarrow> string" where
  "name_of t = (case title t of [] \<Rightarrow> ''(untitled)'' | x # _ \<Rightarrow> x)"

text \<open>Lines 138 to 140: the weeks of a task, with the single-week fallback.\<close>

definition weeks_of :: "task \<Rightarrow> error + datetime list" where
  "weeks_of t =
     (case mondays_between (start t) (due t) of
        Inl err \<Rightarrow> Inl err
      | Inr ms \<Rightarrow> Inr (if ms = [] then [start t] else ms))"

definition per_week_of :: "pyfloat \<Rightarrow> nat \<Rightarrow> pyfloat" where
  "per_week_of est n = (if 0 < est then fdiv est (float_of_int (int n)) else 0)"

definition carry_of :: "pyfloat \<Rightarrow> nat \<Rightarrow> pyfloat" where
  "carry_of est n =
     fsub est (fmul (py_round2 (per_week_of est n)) (float_of_int (int n - 1)))"

text \<open>
  Lines 124 to 157: the loop over the tasks.  An exception ends the run; the
  store reached so far comes with it.
\<close>

fun run_tasks ::
  "(string \<rightharpoonup> string) \<Rightarrow> (string \<rightharpoonup> string) \<Rightarrow> task list \<Rightarrow>
   notion \<times> nat \<times> nat \<Rightarrow> (error \<times> notion) + (notion \<times> nat \<times> nat)" where
  "run_tasks idx_by_title idx_by_date [] acc = Inr acc"
| "run_tasks idx_by_title idx_by_date (t # ts) (st, created, updated) =
     (case weeks_of t of
        Inl err \<Rightarrow> Inl (err, st)
      | Inr weeks \<Rightarrow>
          (let est = est_of t;
               n = max 1 (length weeks);
               per_week = per_week_of est n;
               carry = carry_of est n
           in run_tasks idx_by_title idx_by_date ts
                (alloc_loop idx_by_title idx_by_date (task_id t) (name_of t) est n per_week
                   carry 0 weeks (st, created, updated))))"

datatype outcome = No_job | Done nat nat

text \<open>
  \<open>run\<close>, given what its reads return: whether a queued job was found, the flag
  \<open>RUN_IF_NO_JOB\<close>, the two week indexes and the Activity tasks with Start and
  Due.  The status writes to the job page do not touch the Allocations database
  and are left out.
\<close>

definition run ::
  "bool \<Rightarrow> bool \<Rightarrow> (string \<rightharpoonup> string) \<Rightarrow> (string \<rightharpoonup> string) \<Rightarrow> task list \<Rightarrow>
   notion \<Rightarrow> (error \<times> notion) + (outcome \<times> notion)" where
  "run job RUN_IF_NO_JOB idx_by_title idx_by_date tasks st =
     (if \<not> job \<and> \<not> RUN_IF_NO_JOB then Inr (No_job, st)
      else (case run_tasks idx_by_title idx_by_date tasks (st, 0, 0) of
              Inl e \<Rightarrow> Inl e
            | Inr (st', created, updated) \<Rightarrow> Inr (Done created updated, st')))"

subsection \<open>Sample stores\<close>

definition one_page_store :: notion where
  "one_page_store =
     \<lparr>allocs = [\<lparr>page_id = 1, alloc_name = ''Draft'', task_rel = [''t1''],
                  week_rel = [''w1''], planned_hours = Some 1\<rparr>],
      writes = []\<rparr>"

definition dup_store :: notion where
  "dup_store =
     \<lparr>allocs = [\<lparr>page_id = 1, alloc_name = ''first'', task_rel = [''t1''],
                  week_rel = [''w1''], planned_hours = Some 1\<rparr>,
                \<lparr>page_id = 2, alloc_name = ''second'', task_rel = [''t1''],
                  week_rel = [''w1''], planned_hours = Some 7\<rparr>],
      writes = []\<rparr>"

subsection \<open>Reference notions for the weeks of a task\<close>

text \<open>
  The first Monday on or after a datetime: its date moved forward to a Monday
  (unchanged when it is one), at the same time of day in whole seconds.
\<close>

definition first_monday :: "datetime \<Rightarrow> datetime" where
  "first_monday s =
     s\<lparr>ordinal := ordinal s + (7 - weekday s) mod 7,
       micros := micros s - micros s mod 1000000\<rparr>"

text \<open>
  The weeks as the specification words them: every Monday from the first Monday
  on or after \<open>start\<close> up to and including the first Monday on or after \<open>due\<close>.
\<close>

definition spec_weeks :: "datetime \<Rightarrow> datetime \<Rightarrow> datetime list" where
  "spec_weeks s e =
     (let m = first_monday s; l = first_monday e
      in map (\<lambda>k. m\<lparr>ordinal := ordinal m + 7 * int k\<rparr>)
           [0 ..< nat ((ordinal l - ordinal m) div 7 + 1)])"

subsection \<open>A run as a sequence of upsert calls\<close>

text \<open>The buckets of a list of weeks, numbered from \<open>i\<close>, that resolve to a week id.\<close>

definition resolved ::
  "(string \<rightharpoonup> string) \<Rightarrow> (string \<rightharpoonup> string) \<Rightarrow> nat \<Rightarrow> datetime list \<Rightarrow>
   (nat \<times> datetime) list" where
  "resolved idx_by_title idx_by_date i ws =
     filter (\<lambda>(j, w). \<not> falsy (resolve_week idx_by_title idx_by_date w)) (enumerate i ws)"


text \<open>
  The arguments of one call of \<open>upsert_allocation\<close>: task id, task name, week id,
  week label, hours.
\<close>

type_synonym call = "string \<times> string \<times> string \<times> string \<times> pyfloat"

text \<open>The calls the loop over the buckets makes, which do not depend on the store.\<close>

definition bucket_calls ::
  "(string \<rightharpoonup> string) \<Rightarrow> (string \<rightharpoonup> string) \<Rightarrow> string \<Rightarrow> string \<Rightarrow>
   pyfloat \<Rightarrow> nat \<Rightarrow> pyfloat \<Rightarrow> pyfloat \<Rightarrow> nat \<Rightarrow> datetime list \<Rightarrow> call list" where
  "bucket_calls idx_by_title idx_by_date tid name est n per_week carry i ws =
     map (\<lambda>(j, w). (tid, name, case_option [] id (resolve_week idx_by_title idx_by_date w),
                     iso_week_label w, bucket_hours est n per_week carry j))
       (resolved idx_by_title idx_by_date i ws)"

definition task_calls ::
  "(string \<rightharpoonup> string) \<Rightarrow> (string \<rightharpoonup> string) \<Rightarrow> task \<Rightarrow> call list" where
  "task_calls idx_by_title idx_by_date t =
     (case weeks_of t of
        Inl err \<Rightarrow> []
      | Inr weeks \<Rightarrow>
          (let est = est_of t; n = max 1 (length weeks)
           in bucket_calls idx_by_title idx_by_date (task_id t) (name_of t) est n
                (per_week_of est n) (carry_of est n) 0 weeks))"

text \<open>
  The page id the query of a call finds first, and the effect of a call on the
  list of pages: rewrite the hours of the pages with that id, or append a page.
\<close>

definition target :: "string \<Rightarrow> string \<Rightarrow> allocation list \<Rightarrow> nat option" where
  "target t w as =
     (case filter (\<lambda>a. t \<in> set (task_rel a) \<and> w \<in> set (week_rel a)) as of
        [] \<Rightarrow> None
      | a # _ \<Rightarrow> Some (page_id a))"

definition upd :: "nat \<Rightarrow> pyfloat \<Rightarrow> allocation list \<Rightarrow> allocation list" where
  "upd i v as = map (\<lambda>a. if page_id a = i then a\<lparr>planned_hours := Some v\<rparr> else a) as"

definition step :: "call \<Rightarrow> allocation list \<Rightarrow> allocation list" where
  "step op as =
     (case op of (t, nm, w, lbl, h) \<Rightarrow>
        (case target t w as of
           Some i \<Rightarrow> upd i (py_round2 h) as
         | None \<Rightarrow>
             as @ [\<lparr>page_id = fresh_page_id as, alloc_name = nm @ name_sep @ lbl,
                    task_rel = [t], week_rel = [w], planned_hours = Some (py_round2 h)\<rparr>]))"

fun created_count :: "call list \<Rightarrow> allocation list \<Rightarrow> nat" where
  "created_count [] as = 0"
| "created_count (op # ops) as =
     (case op of (t, nm, w, lbl, h) \<Rightarrow> (if target t w as = None then 1 else 0)) +
     created_count ops (step op as)"

text \<open>Every call finds a page.\<close>

definition all_found :: "call list \<Rightarrow> allocation list \<Rightarrow> bool" where
  "all_found ops as = (\<forall>op \<in> set ops. case op of (t, nm, w, lbl, h) \<Rightarrow> target t w as \<noteq> None)"

text \<open>The hour assignments of a list of calls in a store where every call finds a page.\<close>

definition assigns :: "call list \<Rightarrow> allocation list \<Rightarrow> (nat \<times> pyfloat) list" where
  "assigns ops as =
     map (\<lambda>op. case op of (t, nm, w, lbl, h) \<Rightarrow>
            (case_option 0 id (target t w as), py_round2 h)) ops"

definition apply_assigns :: "(nat \<times> pyfloat) list \<Rightarrow> allocation list \<Rightarrow> allocation list" where
  "apply_assigns A as = fold (\<lambda>(i, v). upd i v) A as"

definition assign_page :: "(nat \<times> pyfloat) list \<Rightarrow> allocation \<Rightarrow> allocation" where
  "assign_page A a =
     fold (\<lambda>(i, v) b. if page_id b = i then b\<lparr>planned_hours := Some v\<rparr> else b) A a"

definition last_value :: "(nat \<times> pyfloat) list \<Rightarrow> nat \<Rightarrow> pyfloat option" where
  "last_value A i = fold (\<lambda>(j, v) acc. if j = i then Some v else acc) A None"

subsection \<open>Observing the writes\<close>

text \<open>The planned hours a write request carries.\<close>

definition written_hours :: "api_write \<Rightarrow> pyfloat option" where
  "written_hours wr =
     (case wr of Pages_update pid ps \<Rightarrow> p_Planned_Hours ps
               | Pages_create ps \<Rightarrow> p_Planned_Hours ps)"

subsection \<open>The scenario of January 2026\<close>

text \<open>\<open>datetime.fromisoformat\<close> of a date-only string: naive, at midnight.\<close>

definition midnight :: "int \<Rightarrow> int \<Rightarrow> int \<Rightarrow> datetime" where
  "midnight y m d = \<lparr>ordinal = ymd2ord y m d, micros = 0, utcoffset = None\<rparr>"

definition scenario_task :: task where
  "scenario_task =
     \<lparr>task_id = ''t1'', title = [''Write''], start = midnight 2026 1 5,
      due = midnight 2026 1 19, hours_est = Some 10\<rparr>"

definition scenario_idx :: "string \<rightharpoonup> string" where
  "scenario_idx =
     [''2026-[W]02'' \<mapsto> ''wk02'', ''2026-[W]03'' \<mapsto> ''wk03'', ''2026-[W]04'' \<mapsto> ''wk04'']"

definition empty_store :: notion where
  "empty_store = \<lparr>allocs = [], writes = []\<rparr>"

section \<open>Facts about the float model\<close>

lemma pow2_powi: "pow2 e = 2 powi e"
  by (simp add: pow2_def power_int_def power_one_over)

lemma pow2_pos [simp]: "0 < pow2 e"
  by (simp add: pow2_powi)

lemma pow2_nonneg [simp]: "0 \<le> pow2 e"
  by (simp add: pow2_powi)

lemma pow2_neq0 [simp]: "pow2 e \<noteq> 0"
  by (simp add: pow2_powi)

lemma pow2_add: "pow2 (a + b) = pow2 a * pow2 b"
  by (simp add: pow2_powi power_int_add)

lemma pow2_mult_eq: "a + b = c \<Longrightarrow> pow2 a * pow2 b = pow2 c"
  using pow2_add [of a b] by simp

lemma pow2_mono: "a \<le> b \<Longrightarrow> pow2 a \<le> pow2 b"
  by (simp add: pow2_powi power_int_increasing)

lemma pow2_strict_mono: "a < b \<Longrightarrow> pow2 a < pow2 b"
  by (simp add: pow2_powi power_int_strict_increasing)

lemma pow2_less_iff [simp]: "pow2 a < pow2 b \<longleftrightarrow> a < b"
  using pow2_strict_mono [of a b] pow2_mono [of b a] by (cases "a < b") auto

lemma pow2_le_iff [simp]: "pow2 a \<le> pow2 b \<longleftrightarrow> a \<le> b"
  using pow2_less_iff [of b a] by (simp add: linorder_not_less [symmetric] del: pow2_less_iff)

lemma pow2_nat: "0 \<le> e \<Longrightarrow> pow2 e = 2 ^ nat e"
  by (simp add: pow2_def)

lemma pow2_0 [simp]: "pow2 0 = 1"
  by (simp add: pow2_def)

lemma ilog2_bounds:
  assumes "0 < x"
  shows "pow2 (ilog2 x) \<le> x" and "x < pow2 (ilog2 x + 1)"
proof -
  obtain p q where pq: "quotient_of x = (p, q)"
    by (cases "quotient_of x") auto
  have q: "0 < q" by (rule quotient_of_denom_pos [OF pq])
  have x: "x = of_int p / of_int q" by (rule quotient_of_div [OF pq])
  have p: "0 < p"
    using assms q unfolding x by (simp add: zero_less_divide_iff)
  have bp: "1 \<le> bitlen p" and bq: "1 \<le> bitlen q"
    using p q by (simp_all add: bitlen_alt_def)
  from bitlen_bounds [OF p] have
    "(of_int (2 ^ nat (bitlen p - 1)) :: rat) \<le> of_int p"
    "(of_int p :: rat) < of_int (2 ^ nat (bitlen p))"
    unfolding of_int_le_iff of_int_less_iff by simp_all
  then have pb: "pow2 (bitlen p - 1) \<le> of_int p" "of_int p < pow2 (bitlen p)"
    using bp by (simp_all add: pow2_nat)
  from bitlen_bounds [OF q] have
    "(of_int (2 ^ nat (bitlen q - 1)) :: rat) \<le> of_int q"
    "(of_int q :: rat) < of_int (2 ^ nat (bitlen q))"
    unfolding of_int_le_iff of_int_less_iff by simp_all
  then have qb: "pow2 (bitlen q - 1) \<le> of_int q" "of_int q < pow2 (bitlen q)"
    using bq by (simp_all add: pow2_nat)
  let ?e = "bitlen p - bitlen q"
  have qpos: "(0::rat) < of_int q" using q by simp
  have up: "x < pow2 (?e + 1)"
  proof -
    have "pow2 (?e + 1) * pow2 (bitlen q - 1) = pow2 (bitlen p)"
      by (rule pow2_mult_eq) simp
    then have "of_int p < pow2 (?e + 1) * pow2 (bitlen q - 1)"
      using pb(2) by simp
    also have "\<dots> \<le> pow2 (?e + 1) * of_int q"
      using qb(1) by (simp add: mult_left_mono)
    finally show ?thesis
      unfolding x using qpos by (simp add: pos_divide_less_eq)
  qed
  have lo: "pow2 (?e - 1) < x"
  proof -
    have "pow2 (?e - 1) * pow2 (bitlen q) = pow2 (bitlen p - 1)"
      by (rule pow2_mult_eq) simp
    have "pow2 (?e - 1) * of_int q < pow2 (?e - 1) * pow2 (bitlen q)"
      using qb(2) by (simp add: mult_strict_left_mono)
    also have "\<dots> = pow2 (bitlen p - 1)"
      by fact
    also have "\<dots> \<le> of_int p"
      by (rule pb(1))
    finally show ?thesis
      unfolding x using qpos by (simp add: pos_less_divide_eq)
  qed
  have il: "ilog2 x = (if pow2 ?e \<le> x then ?e else ?e - 1)"
    by (simp add: ilog2_def pq Let_def)
  show "pow2 (ilog2 x) \<le> x"
    using lo by (simp add: il)
  show "x < pow2 (ilog2 x + 1)"
    using up by (simp add: il)
qed

lemma ilog2_unique:
  assumes "0 < x" and "pow2 k \<le> x" and "x < pow2 (k + 1)"
  shows "ilog2 x = k"
proof -
  have "pow2 k < pow2 (ilog2 x + 1)"
    using assms(2) ilog2_bounds(2) [OF assms(1)] by (rule le_less_trans)
  moreover have "pow2 (ilog2 x) < pow2 (k + 1)"
    using ilog2_bounds(1) [OF assms(1)] assms(3) by (rule le_less_trans)
  ultimately show ?thesis by simp
qed

lemma round_half_even_of_int [simp]: "round_half_even (of_int m) = m"
  by (simp add: round_half_even_def)

lemma round_half_even_error: "\<bar>of_int (round_half_even x) - x\<bar> \<le> 1 / 2"
proof -
  have "of_int \<lfloor>x\<rfloor> \<le> x" "x < of_int \<lfloor>x\<rfloor> + 1"
    by linarith+
  then show ?thesis
    unfolding round_half_even_def Let_def by (auto simp add: abs_le_iff)
qed

lemma fl_0 [simp]: "fl 0 = 0"
  by (simp add: fl_def)

lemma abs_int_le_of_rat:
  fixes m :: int and b :: int
  assumes "\<bar>of_int m - y\<bar> \<le> 1 / 2" and "\<bar>y\<bar> < (of_int b :: rat)"
  shows "\<bar>m\<bar> \<le> b"
proof -
  have "\<bar>(of_int m :: rat)\<bar> < of_int b + 1 / 2"
    using assms by linarith
  then have "(of_int \<bar>m\<bar> :: rat) < of_int (b + 1)"
    by simp
  then have "\<bar>m\<bar> < b + 1"
    unfolding of_int_less_iff .
  then show ?thesis by simp
qed

lemma abs_int_ge_of_rat:
  fixes m :: int and b :: int
  assumes "\<bar>of_int m - y\<bar> \<le> 1 / 2" and "(of_int b :: rat) \<le> \<bar>y\<bar>"
  shows "b \<le> \<bar>m\<bar>"
proof -
  have "(of_int b :: rat) - 1 / 2 \<le> \<bar>of_int m\<bar>"
    using assms by linarith
  then have "(of_int (b - 1) :: rat) < of_int \<bar>m\<bar>"
    by simp
  then have "b - 1 < \<bar>m\<bar>"
    unfolding of_int_less_iff .
  then show ?thesis by simp
qed

lemma pow2_53: "pow2 53 = of_int (2 ^ 53)" and pow2_52: "pow2 52 = of_int (2 ^ 52)"
  by (simp_all add: pow2_def)


text \<open>The shape of a rounded value: an integer significand times the spacing.\<close>

lemma fl_form:
  assumes "x \<noteq> 0"
  defines "e \<equiv> max (ilog2 \<bar>x\<bar>) (- 1022)"
  defines "m \<equiv> round_half_even (x / pow2 (e - 52))"
  shows "fl x = of_int m * pow2 (e - 52)" and "- 1022 \<le> e"
    and "\<bar>of_int m :: rat\<bar> \<le> pow2 53"
    and "pow2 52 \<le> \<bar>of_int m :: rat\<bar> \<or> e = - 1022"
proof -
  let ?u = "pow2 (e - 52)"
  let ?y = "x / ?u"
  have a: "0 < \<bar>x\<bar>" using assms(1) by simp
  show "fl x = of_int m * ?u"
    using assms(1) by (simp add: fl_def e_def m_def Let_def)
  show "- 1022 \<le> e" by (simp add: e_def)
  have err: "\<bar>of_int m - ?y\<bar> \<le> 1 / 2"
    unfolding m_def by (rule round_half_even_error)
  have absy: "\<bar>?y\<bar> = \<bar>x\<bar> / ?u"
    by (simp add: abs_divide abs_of_pos)
  have "\<bar>x\<bar> < pow2 (ilog2 \<bar>x\<bar> + 1)"
    by (rule ilog2_bounds(2) [OF a])
  also have "\<dots> \<le> pow2 (e + 1)"
    by (simp add: e_def)
  also have "\<dots> = pow2 53 * ?u"
    by (rule pow2_mult_eq [symmetric]) simp
  finally have "\<bar>?y\<bar> < pow2 53"
    unfolding absy by (simp add: pos_divide_less_eq)
  then have "\<bar>?y\<bar> < of_int (2 ^ 53)"
    by (simp only: pow2_53)
  from abs_int_le_of_rat [OF err this] have "\<bar>m\<bar> \<le> 2 ^ 53" .
  then have "(of_int \<bar>m\<bar> :: rat) \<le> of_int (2 ^ 53)"
    unfolding of_int_le_iff .
  then show "\<bar>of_int m :: rat\<bar> \<le> pow2 53"
    by (simp only: pow2_53 of_int_abs)
  show "pow2 52 \<le> \<bar>of_int m :: rat\<bar> \<or> e = - 1022"
  proof (cases "e = - 1022")
    case True
    then show ?thesis by simp
  next
    case False
    then have ek: "e = ilog2 \<bar>x\<bar>"
      by (simp add: e_def max_def split: if_splits)
    have "pow2 52 * ?u = pow2 e"
      by (rule pow2_mult_eq) simp
    also have "\<dots> \<le> \<bar>x\<bar>"
      unfolding ek by (rule ilog2_bounds(1) [OF a])
    finally have "pow2 52 \<le> \<bar>?y\<bar>"
      unfolding absy by (simp add: pos_le_divide_eq)
    then have "of_int (2 ^ 52) \<le> \<bar>?y\<bar>"
      by (simp only: pow2_52)
    from abs_int_ge_of_rat [OF err this] have "2 ^ 52 \<le> \<bar>m\<bar>" .
    then have "(of_int (2 ^ 52) :: rat) \<le> of_int \<bar>m\<bar>"
      unfolding of_int_le_iff .
    then show ?thesis
      by (simp only: pow2_52 of_int_abs) simp
  qed
qed

lemma fl_at:
  assumes "y \<noteq> 0" and "max (ilog2 \<bar>y\<bar>) (- 1022) = e" and "y = of_int m * pow2 (e - 52)"
  shows "fl y = y"
proof -
  have "y / pow2 (e - 52) = of_int m"
    using assms(3) by simp
  then show ?thesis
    using assms by (simp add: fl_def Let_def)
qed

text \<open>Every value of that shape is a float: rounding returns it unchanged.\<close>

lemma fl_repr:
  assumes y: "y = of_int m * pow2 (e - 52)" and e: "- 1022 \<le> e"
    and hi: "\<bar>of_int m :: rat\<bar> \<le> pow2 53"
    and lo: "pow2 52 \<le> \<bar>of_int m :: rat\<bar> \<or> e = - 1022"
  shows "fl y = y"
proof (cases "m = 0")
  case True
  then show ?thesis by (simp add: y)
next
  case False
  then have y0: "y \<noteq> 0"
    by (simp add: y)
  have absy: "\<bar>y\<bar> = \<bar>of_int m\<bar> * pow2 (e - 52)"
    by (simp add: y abs_mult abs_of_pos)
  have ypos: "0 < \<bar>y\<bar>" using y0 by simp
  consider (top) "\<bar>of_int m :: rat\<bar> = pow2 53"
    | (mid) "pow2 52 \<le> \<bar>of_int m :: rat\<bar>" "\<bar>of_int m :: rat\<bar> < pow2 53"
    | (sub) "\<bar>of_int m :: rat\<bar> < pow2 52"
    using hi by linarith
  then show ?thesis
  proof cases
    case top
    have ay: "\<bar>y\<bar> = pow2 (e + 1)"
      unfolding absy top by (rule pow2_mult_eq) simp
    have "ilog2 \<bar>y\<bar> = e + 1"
      by (rule ilog2_unique [OF ypos]) (simp_all add: ay)
    then have e': "max (ilog2 \<bar>y\<bar>) (- 1022) = e + 1"
      using e by simp
    have "(of_int \<bar>m\<bar> :: rat) = of_int (2 ^ 53)"
      using top by (simp only: pow2_53 of_int_abs)
    then have "\<bar>m\<bar> = 2 ^ 53"
      unfolding of_int_eq_iff .
    then have "even \<bar>m\<bar>"
      by simp
    then have "m = 2 * (m div 2)"
      by simp
    then have "(of_int m :: rat) = 2 * of_int (m div 2)"
      by (metis of_int_mult of_int_numeral)
    moreover have "pow2 (e - 52) * pow2 1 = pow2 (e + 1 - 52)"
      by (rule pow2_mult_eq) simp
    then have "pow2 (e - 52) = pow2 (e + 1 - 52) / 2"
      by (simp add: pow2_def [of 1])
    ultimately have "y = of_int (m div 2) * pow2 (e + 1 - 52)"
      by (simp add: y)
    from fl_at [OF y0 e' this] show ?thesis .
  next
    case mid
    have "pow2 e = pow2 52 * pow2 (e - 52)"
      by (rule pow2_mult_eq [symmetric]) simp
    also have "\<dots> \<le> \<bar>y\<bar>"
      unfolding absy using mid(1) by (simp add: mult_right_mono)
    finally have l: "pow2 e \<le> \<bar>y\<bar>" .
    have "\<bar>y\<bar> < pow2 53 * pow2 (e - 52)"
      unfolding absy using mid(2) by (simp add: mult_strict_right_mono)
    also have "\<dots> = pow2 (e + 1)"
      by (rule pow2_mult_eq) simp
    finally have "ilog2 \<bar>y\<bar> = e"
      using l by (intro ilog2_unique [OF ypos])
    then have "max (ilog2 \<bar>y\<bar>) (- 1022) = e"
      using e by simp
    from fl_at [OF y0 this y] show ?thesis .
  next
    case sub
    with lo have e1: "e = - 1022" by simp
    have "pow2 (ilog2 \<bar>y\<bar>) \<le> \<bar>y\<bar>"
      by (rule ilog2_bounds(1) [OF ypos])
    also have "\<bar>y\<bar> < pow2 52 * pow2 (e - 52)"
      unfolding absy using sub by (simp add: mult_strict_right_mono)
    also have "\<dots> = pow2 (- 1022)"
      unfolding e1 by (rule pow2_mult_eq) simp
    finally have "ilog2 \<bar>y\<bar> < - 1022"
      by simp
    then have "max (ilog2 \<bar>y\<bar>) (- 1022) = e"
      using e1 by simp
    from fl_at [OF y0 this y] show ?thesis .
  qed
qed

lemma fl_idem: "fl (fl x) = fl x"
proof (cases "x = 0")
  case True
  then show ?thesis by simp
next
  case False
  from fl_repr [OF fl_form [OF False]] show ?thesis .
qed

lemma fl_error:
  "\<bar>fl x - x\<bar> \<le> pow2 (- 53) * max \<bar>x\<bar> (pow2 (- 1022))"
proof (cases "x = 0")
  case True
  then show ?thesis by simp
next
  case False
  define e where "e = max (ilog2 \<bar>x\<bar>) (- 1022)"
  let ?u = "pow2 (e - 52)"
  let ?m = "round_half_even (x / ?u)"
  have a: "0 < \<bar>x\<bar>" using False by simp
  have f: "fl x = of_int ?m * ?u"
    using False by (simp add: fl_def e_def Let_def)
  have "fl x - x = (of_int ?m - x / ?u) * ?u"
    by (simp add: f algebra_simps)
  then have "\<bar>fl x - x\<bar> = \<bar>of_int ?m - x / ?u\<bar> * ?u"
    by (simp add: abs_mult abs_of_pos)
  also have "\<dots> \<le> 1 / 2 * ?u"
    by (intro mult_right_mono round_half_even_error) simp
  also have "\<dots> = pow2 (- 53) * pow2 e"
  proof -
    have "pow2 (- 53) * pow2 e = pow2 (e - 53)"
      by (rule pow2_mult_eq) simp
    moreover have "pow2 (e - 53) * pow2 1 = pow2 (e - 52)"
      by (rule pow2_mult_eq) simp
    ultimately show ?thesis
      by (simp add: pow2_def [of 1])
  qed
  also have "pow2 e \<le> max \<bar>x\<bar> (pow2 (- 1022))"
  proof (cases "ilog2 \<bar>x\<bar> \<le> - 1022")
    case True
    then show ?thesis by (simp add: e_def max_def)
  next
    case False
    then have "e = ilog2 \<bar>x\<bar>" by (simp add: e_def)
    with ilog2_bounds(1) [OF a] show ?thesis by (simp add: le_max_iff_disj)
  qed
  finally show ?thesis
    by (simp add: mult_left_mono)
qed

lemma fl_error_bound:
  assumes "\<bar>x\<bar> \<le> B" and "1 \<le> B"
  shows "\<bar>fl x - x\<bar> \<le> pow2 (- 53) * B"
proof -
  have "pow2 (- 1022) \<le> pow2 0"
    unfolding pow2_le_iff by simp
  then have "max \<bar>x\<bar> (pow2 (- 1022)) \<le> B"
    using assms by simp
  then have "pow2 (- 53) * max \<bar>x\<bar> (pow2 (- 1022)) \<le> pow2 (- 53) * B"
    by (simp add: mult_left_mono)
  with fl_error [of x] show ?thesis
    by linarith
qed

lemma round_half_even_nonneg: "0 \<le> x \<Longrightarrow> 0 \<le> round_half_even x"
  by (simp add: round_half_even_def Let_def)

lemma fl_nonneg: "0 \<le> x \<Longrightarrow> 0 \<le> fl x"
  by (simp add: fl_def Let_def round_half_even_nonneg)

lemma fl_of_int:
  assumes "\<bar>n\<bar> \<le> 2 ^ 53"
  shows "fl (of_int n) = of_int n"
proof (cases "n = 0")
  case True
  then show ?thesis by simp
next
  case False
  let ?a = "\<bar>of_int n :: rat\<bar>"
  have "1 \<le> \<bar>n\<bar>"
    using False by simp
  then have "(of_int 1 :: rat) \<le> of_int \<bar>n\<bar>"
    unfolding of_int_le_iff .
  then have a1: "1 \<le> ?a"
    by simp
  then have apos: "0 < ?a" by linarith
  have "(of_int \<bar>n\<bar> :: rat) \<le> of_int (2 ^ 53)"
    using assms unfolding of_int_le_iff .
  then have a53: "?a \<le> pow2 53"
    by (simp only: pow2_53 of_int_abs)
  define k where "k = ilog2 ?a"
  have kl: "pow2 k \<le> ?a" and ku: "?a < pow2 (k + 1)"
    unfolding k_def by (rule ilog2_bounds [OF apos])+
  have "pow2 0 < pow2 (k + 1)"
    using a1 ku by simp
  then have "0 < k + 1"
    by (simp only: pow2_less_iff)
  then have k0: "0 \<le> k" by simp
  have "pow2 k \<le> pow2 53"
    using kl a53 by (rule order_trans)
  then have k53: "k \<le> 53" by simp
  show ?thesis
  proof (cases "k = 53")
    case True
    have "pow2 52 \<le> pow2 k"
      unfolding True by (rule pow2_mono) simp
    then have "pow2 52 \<le> ?a"
      using kl by (rule order_trans)
    then show ?thesis
      using a53 by (intro fl_repr [of _ n 52]) simp_all
  next
    case False
    with k53 have k52: "k \<le> 52" by simp
    let ?m = "n * 2 ^ nat (52 - k)"
    have m: "(of_int ?m :: rat) = of_int n * pow2 (52 - k)"
      using k52 by (simp add: pow2_nat)
    have "pow2 (52 - k) * pow2 (k - 52) = pow2 0"
      by (rule pow2_mult_eq) simp
    then have y: "(of_int n :: rat) = of_int ?m * pow2 (k - 52)"
      unfolding m by simp
    have am: "\<bar>of_int ?m :: rat\<bar> = ?a * pow2 (52 - k)"
      unfolding m by (simp add: abs_mult abs_of_pos)
    have "pow2 52 = pow2 k * pow2 (52 - k)"
      by (rule pow2_mult_eq [symmetric]) simp
    also have "\<dots> \<le> ?a * pow2 (52 - k)"
      using kl by (simp add: mult_right_mono)
    finally have lo: "pow2 52 \<le> \<bar>of_int ?m :: rat\<bar>"
      unfolding am .
    have "?a * pow2 (52 - k) \<le> pow2 (k + 1) * pow2 (52 - k)"
      using ku by (simp add: mult_right_mono)
    also have "\<dots> = pow2 53"
      by (rule pow2_mult_eq) simp
    finally have hi: "\<bar>of_int ?m :: rat\<bar> \<le> pow2 53"
      unfolding am .
    show ?thesis
      using k0 lo hi by (intro fl_repr [OF y]) simp_all
  qed
qed

lemma float_of_int_exact: "\<bar>n\<bar> \<le> 2 ^ 53 \<Longrightarrow> float_of_int n = of_int n"
  unfolding float_of_int_def by (rule fl_of_int)

lemma py_round2_error:
  "\<bar>of_int (round_half_even (x * 100)) / 100 - x\<bar> \<le> 1 / 200"
proof -
  have "\<bar>of_int (round_half_even (x * 100)) - x * 100\<bar> \<le> 1 / 2"
    by (rule round_half_even_error)
  then show ?thesis
    by (simp add: abs_le_iff field_simps)
qed

text \<open>
  The carry makes up for the rounding of the other buckets: the rounded weekly
  hours, taken \<open>n - 1\<close> times, and the carry add up to the estimate, within the
  accuracy of the three float operations involved.
\<close>

lemma carry_sum_bound:
  assumes H: "0 < H" "H \<le> 10 ^ 6" and n: "1 \<le> n" "n \<le> 10 ^ 6"
  shows "\<bar>of_nat (n - 1) * py_round2 (per_week_of H n) + carry_of H n - H\<bar> \<le> 1 / 10 ^ 9"
proof -
  define u :: rat where "u = pow2 (- 53)"
  define N :: rat where "N = of_nat n"
  define a where "a = H / N"
  define q where "q = fl a"
  define R :: rat where "R = of_int (round_half_even (q * 100)) / 100"
  define r where "r = fl R"
  define x1 where "x1 = r * (N - 1)"
  define p where "p = fl x1"
  define x2 where "x2 = H - p"
  define c where "c = fl x2"
  have uval: "u = 1 / 2 ^ 53"
    by (simp add: u_def pow2_def)
  have us: "u * 10 ^ 6 \<le> 1 / 1000" "u * (10 ^ 6 + 1) \<le> 1 / 1000" "u * 1010000 \<le> 1"
    "u * 1010000 + u * 1010001 \<le> 1 / 10 ^ 9"
    by (simp_all add: uval)
  have "(of_nat 1 :: rat) \<le> of_nat n" "(of_nat n :: rat) \<le> of_nat (10 ^ 6)"
    using n unfolding of_nat_le_iff by simp_all
  then have N1: "1 \<le> N" and NB: "N \<le> 10 ^ 6"
    unfolding N_def by simp_all
  have nf: "float_of_int (int n) = N"
    unfolding N_def using n(2) by (subst float_of_int_exact) simp_all
  have n1f: "float_of_int (int n - 1) = N - 1"
    unfolding N_def using n by (subst float_of_int_exact) simp_all
  have pw: "per_week_of H n = q"
    using H(1) by (simp add: per_week_of_def fdiv_def nf q_def a_def)
  have r2: "py_round2 q = r"
    by (simp add: py_round2_def r_def R_def)
  have ca: "carry_of H n = c"
    by (simp add: carry_of_def pw r2 n1f fmul_def fsub_def c_def x2_def p_def x1_def)
  have nn: "(of_nat (n - 1) :: rat) = N - 1"
    using n(1) by (simp add: N_def of_nat_diff)
  have a0: "0 < a" and aH: "a \<le> H"
    using H(1) N1 by (simp_all add: a_def divide_le_eq)
  have aN: "a * N = H"
    using N1 by (simp add: a_def)
  have q0: "0 \<le> q"
    unfolding q_def using a0 by (intro fl_nonneg) simp
  have "\<bar>q - a\<bar> \<le> u * 10 ^ 6"
    unfolding q_def u_def using a0 aH H(2) by (intro fl_error_bound) simp_all
  then have qa: "q \<le> a + u * 10 ^ 6"
    by linarith
  have R0: "0 \<le> R"
    unfolding R_def using q0 by (simp add: round_half_even_nonneg)
  have "\<bar>R - q\<bar> \<le> 1 / 200"
    unfolding R_def by (rule py_round2_error)
  then have Rq: "R \<le> q + 1 / 200"
    by linarith
  have RB: "\<bar>R\<bar> \<le> 10 ^ 6 + 1"
    using R0 Rq qa aH H(2) us(1) by linarith
  have r0: "0 \<le> r"
    unfolding r_def using R0 by (rule fl_nonneg)
  have "\<bar>r - R\<bar> \<le> u * (10 ^ 6 + 1)"
    unfolding r_def u_def using RB by (intro fl_error_bound) simp_all
  then have ra: "r \<le> a + 1 / 100"
    using Rq qa us(1,2) by linarith
  have x10: "0 \<le> x1"
    unfolding x1_def using r0 N1 by simp
  have "x1 \<le> (a + 1 / 100) * (N - 1)"
    unfolding x1_def using ra N1 by (intro mult_right_mono) simp_all
  also have "\<dots> \<le> (a + 1 / 100) * N"
    using a0 by (intro mult_left_mono) simp_all
  also have "\<dots> = H + N / 100"
    using aN by (simp add: algebra_simps)
  also have "\<dots> \<le> 1010000"
    using H(2) NB by simp
  finally have x1B: "x1 \<le> 1010000" .
  have p0: "0 \<le> p"
    unfolding p_def using x10 by (rule fl_nonneg)
  have e1: "\<bar>p - x1\<bar> \<le> u * 1010000"
    unfolding p_def u_def using x10 x1B by (intro fl_error_bound) simp_all
  then have pB: "p \<le> 1010001"
    using x1B us(3) by linarith
  have "\<bar>x2\<bar> \<le> 1010001"
    unfolding x2_def using p0 pB H by simp
  then have e2: "\<bar>c - x2\<bar> \<le> u * 1010001"
    unfolding c_def u_def by (intro fl_error_bound) simp_all
  have "(N - 1) * r + c - H = (x1 - p) + (c - x2)"
    by (simp add: x1_def x2_def algebra_simps)
  then have "\<bar>(N - 1) * r + c - H\<bar> \<le> u * 1010000 + u * 1010001"
    using e1 e2 by linarith
  also have "\<dots> \<le> 1 / 10 ^ 9"
    by (rule us(4))
  finally show ?thesis
    unfolding pw r2 ca nn .
qed


section \<open>Properties of upsert_allocation\<close>

lemma query_pages_update_hours:
  "databases_query t w
     (pages_update pid \<lparr>p_Name = None, p_Task = None, p_Week = None, p_Planned_Hours = Some r\<rparr> st)
   = map (\<lambda>a. if page_id a = pid then a\<lparr>planned_hours := Some r\<rparr> else a)
       (databases_query t w st)"
  by (simp add: databases_query_def pages_update_def set_properties_def filter_map o_def
      if_distrib [of task_rel] if_distrib [of week_rel] cong: if_cong)

lemma query_pages_create:
  "databases_query t' w'
     (pages_create \<lparr>p_Name = Some nm, p_Task = Some [t], p_Week = Some [w],
                    p_Planned_Hours = Some r\<rparr> st)
   = databases_query t' w' st @
       (if t' = t \<and> w' = w
        then [\<lparr>page_id = fresh_page_id (allocs st), alloc_name = nm, task_rel = [t],
               week_rel = [w], planned_hours = Some r\<rparr>]
        else [])"
  by (auto simp add: databases_query_def pages_create_def set_properties_def)

lemma length_query_upsert:
  "length (databases_query t' w' (snd (upsert_allocation t nm w lbl h st))) =
   length (databases_query t' w' st) +
     (if databases_query t w st = [] \<and> t' = t \<and> w' = w then 1 else 0)"
  by (simp add: upsert_allocation_def query_pages_update_hours query_pages_create
      split: list.split)

lemma distinct_query_ids:
  "distinct (map page_id (allocs st)) \<Longrightarrow> distinct (map page_id (databases_query t w st))"
  by (simp add: databases_query_def distinct_map_filter)

lemma query_subset: "set (databases_query t w st) \<subseteq> set (allocs st)"
  by (auto simp add: databases_query_def)

text \<open>
  C6.  One call of \<open>upsert_allocation\<close> sends exactly one write request.  When the
  query finds a page, the request is an update of the first page found, every
  page carrying that id then holds \<open>round(hours, 2)\<close>, no page is added, and the
  call returns "updated".  When the query finds nothing, the request is a create,
  exactly one page is appended, with name \<open>task_name \<cdot> week_label\<close>, task relation
  \<open>[task_id]\<close>, week relation \<open>[week_id]\<close> and planned hours \<open>round(hours, 2)\<close>, and the
  call returns "created".
\<close>

theorem upsert_exactly_one_write:
  assumes "upsert_allocation tid tname wid wlabel hours st = (res, st')"
  shows "length (writes st') = length (writes st) + 1 \<and>
    (case databases_query tid wid st of
       a # _ \<Rightarrow>
         res = ''updated'' \<and>
         writes st' = writes st @
           [Pages_update (page_id a)
              \<lparr>p_Name = None, p_Task = None, p_Week = None,
               p_Planned_Hours = Some (py_round2 hours)\<rparr>] \<and>
         length (allocs st') = length (allocs st) \<and>
         (\<forall>b \<in> set (allocs st').
            page_id b = page_id a \<longrightarrow> planned_hours b = Some (py_round2 hours))
     | [] \<Rightarrow>
         res = ''created'' \<and>
         writes st' = writes st @
           [Pages_create
              \<lparr>p_Name = Some (tname @ name_sep @ wlabel),
               p_Task = Some [tid], p_Week = Some [wid],
               p_Planned_Hours = Some (py_round2 hours)\<rparr>] \<and>
         allocs st' = allocs st @
           [\<lparr>page_id = fresh_page_id (allocs st),
             alloc_name = tname @ name_sep @ wlabel,
             task_rel = [tid], week_rel = [wid],
             planned_hours = Some (py_round2 hours)\<rparr>])"
proof (cases "databases_query tid wid st")
  case Nil
  with assms show ?thesis
    by (auto simp add: upsert_allocation_def pages_create_def set_properties_def)
next
  case (Cons a rest)
  with assms show ?thesis
    by (auto simp add: upsert_allocation_def pages_update_def set_properties_def)
qed

theorem upsert_exactly_one_write_witness:
  "upsert_allocation ''t1'' ''Task'' ''w1'' ''2026-[W]02'' (5 / 2) one_page_store =
     (''updated'',
      \<lparr>allocs = [\<lparr>page_id = 1, alloc_name = ''Draft'', task_rel = [''t1''],
                   week_rel = [''w1''], planned_hours = Some (5 / 2)\<rparr>],
       writes = [Pages_update 1 \<lparr>p_Name = None, p_Task = None, p_Week = None,
                                  p_Planned_Hours = Some (5 / 2)\<rparr>]\<rparr>) \<and>
   length (writes (snd (upsert_allocation ''t1'' ''Task'' ''w1'' ''2026-[W]02'' (5 / 2)
     one_page_store))) = length (writes one_page_store) + 1"
proof -
  have h: "upsert_allocation ''t1'' ''Task'' ''w1'' ''2026-[W]02'' (5 / 2) one_page_store =
     (''updated'',
      \<lparr>allocs = [\<lparr>page_id = 1, alloc_name = ''Draft'', task_rel = [''t1''],
                   week_rel = [''w1''], planned_hours = Some (5 / 2)\<rparr>],
       writes = [Pages_update 1 \<lparr>p_Name = None, p_Task = None, p_Week = None,
                                  p_Planned_Hours = Some (5 / 2)\<rparr>]\<rparr>)"
    by code_simp
  from upsert_exactly_one_write [OF h] show ?thesis
    using h by simp
qed

text \<open>
  C9.  On the update path the request carries the planned-hours property only,
  set to \<open>round(hours, 2)\<close>, and the ids, names, task relations and week relations
  of all pages are what they were.
\<close>

theorem upsert_update_frame:
  assumes "databases_query tid wid st = a # rest"
    and "upsert_allocation tid tname wid wlabel hours st = (res, st')"
  shows "writes st' = writes st @
           [Pages_update (page_id a)
              \<lparr>p_Name = None, p_Task = None, p_Week = None,
               p_Planned_Hours = Some (py_round2 hours)\<rparr>] \<and>
         map page_id (allocs st') = map page_id (allocs st) \<and>
         map alloc_name (allocs st') = map alloc_name (allocs st) \<and>
         map task_rel (allocs st') = map task_rel (allocs st) \<and>
         map week_rel (allocs st') = map week_rel (allocs st)"
  using assms
  by (auto simp add: upsert_allocation_def pages_update_def set_properties_def)

theorem upsert_update_frame_witness:
  "databases_query ''t1'' ''w1'' one_page_store =
     \<lparr>page_id = 1, alloc_name = ''Draft'', task_rel = [''t1''], week_rel = [''w1''],
      planned_hours = Some 1\<rparr> # [] \<and>
   map alloc_name (allocs (snd (upsert_allocation ''t1'' ''Task'' ''w1'' ''2026-[W]02'' (5 / 2)
     one_page_store))) = [''Draft''] \<and>
   map task_rel (allocs (snd (upsert_allocation ''t1'' ''Task'' ''w1'' ''2026-[W]02'' (5 / 2)
     one_page_store))) = [[''t1'']] \<and>
   map week_rel (allocs (snd (upsert_allocation ''t1'' ''Task'' ''w1'' ''2026-[W]02'' (5 / 2)
     one_page_store))) = [[''w1'']]"
proof -
  have q: "databases_query ''t1'' ''w1'' one_page_store =
     \<lparr>page_id = 1, alloc_name = ''Draft'', task_rel = [''t1''], week_rel = [''w1''],
      planned_hours = Some 1\<rparr> # []"
    by code_simp
  have u: "upsert_allocation ''t1'' ''Task'' ''w1'' ''2026-[W]02'' (5 / 2) one_page_store =
     (fst (upsert_allocation ''t1'' ''Task'' ''w1'' ''2026-[W]02'' (5 / 2) one_page_store),
      snd (upsert_allocation ''t1'' ''Task'' ''w1'' ''2026-[W]02'' (5 / 2) one_page_store))"
    by simp
  from upsert_update_frame [OF q u] show ?thesis
    using q by (simp add: one_page_store_def)
qed

text \<open>
  C10.  In a store whose page ids are distinct, a call whose query finds two or
  more pages returns "updated", rewrites the planned hours of the first page
  found and of no other page, and leaves the other matches in place: the query
  afterwards gives the rewritten first page followed by the same duplicates.
  For every call, the store satisfies the at-most-one-per-pair invariant
  afterwards exactly when it did before: the invariant is kept, and a violation
  is never repaired.
\<close>

theorem upsert_duplicates_kept:
  assumes "distinct (map page_id (allocs st))"
    and "upsert_allocation tid tname wid wlabel hours st = (res, st')"
  shows "(\<forall>a b rest. databases_query tid wid st = a # b # rest \<longrightarrow>
            res = ''updated'' \<and>
            length (allocs st') = length (allocs st) \<and>
            allocs st' =
              map (\<lambda>c. if c = a then a\<lparr>planned_hours := Some (py_round2 hours)\<rparr> else c)
                (allocs st) \<and>
            databases_query tid wid st' =
              a\<lparr>planned_hours := Some (py_round2 hours)\<rparr> # b # rest) \<and>
         (at_most_one st' \<longleftrightarrow> at_most_one st)"
proof -
  have st': "st' = snd (upsert_allocation tid tname wid wlabel hours st)"
    using assms(2) by simp
  have inv: "at_most_one st' \<longleftrightarrow> at_most_one st"
  proof
    assume "at_most_one st'"
    then show "at_most_one st"
      unfolding at_most_one_def st' length_query_upsert
      by (metis (no_types, lifting) add_leD1)
  next
    assume a: "at_most_one st"
    show "at_most_one st'"
      unfolding at_most_one_def st' length_query_upsert
    proof (intro allI)
      fix t w
      show "length (databases_query t w st) +
            (if databases_query tid wid st = [] \<and> t = tid \<and> w = wid
             then 1 else 0) \<le> 1"
        using a by (auto simp add: at_most_one_def)
    qed
  qed
  have dup: "res = ''updated'' \<and>
            length (allocs st') = length (allocs st) \<and>
            allocs st' =
              map (\<lambda>c. if c = a then a\<lparr>planned_hours := Some (py_round2 hours)\<rparr> else c)
                (allocs st) \<and>
            databases_query tid wid st' =
              a\<lparr>planned_hours := Some (py_round2 hours)\<rparr> # b # rest"
    if q: "databases_query tid wid st = a # b # rest" for a b rest
  proof -
    let ?ps = "\<lparr>p_Name = None, p_Task = None, p_Week = None,
                p_Planned_Hours = Some (py_round2 hours)\<rparr>"
    have r: "res = ''updated''" and s: "st' = pages_update (page_id a) ?ps st"
      using assms(2) q by (simp_all add: upsert_allocation_def)
    have same_id: "page_id c = page_id a \<longleftrightarrow> c = a" if "c \<in> set (allocs st)" for c
    proof -
      have "a \<in> set (allocs st)"
        using query_subset [of tid wid st] q by auto
      with that assms(1) show ?thesis
        by (auto simp add: distinct_map dest: inj_onD)
    qed
    have "distinct (map page_id (a # b # rest))"
      using distinct_query_ids [OF assms(1), of tid wid] q by simp
    then have others: "\<forall>c \<in> set (b # rest). page_id c \<noteq> page_id a"
      by (auto simp add: image_iff)
    have al: "allocs st' =
        map (\<lambda>c. if c = a then a\<lparr>planned_hours := Some (py_round2 hours)\<rparr> else c) (allocs st)"
      unfolding s pages_update_def using same_id
      by (auto simp add: set_properties_def)
    have qq: "databases_query tid wid st' =
        a\<lparr>planned_hours := Some (py_round2 hours)\<rparr> # b # rest"
      unfolding s query_pages_update_hours q using others
      by (simp add: map_idI)
    show ?thesis using r al qq by simp
  qed
  show ?thesis using inv dup by blast
qed

theorem upsert_duplicates_kept_witness:
  "distinct (map page_id (allocs dup_store)) \<and>
   upsert_allocation ''t1'' ''Task'' ''w1'' ''2026-[W]02'' 2 dup_store =
     (''updated'',
      \<lparr>allocs = [\<lparr>page_id = 1, alloc_name = ''first'', task_rel = [''t1''],
                   week_rel = [''w1''], planned_hours = Some 2\<rparr>,
                 \<lparr>page_id = 2, alloc_name = ''second'', task_rel = [''t1''],
                   week_rel = [''w1''], planned_hours = Some 7\<rparr>],
       writes = [Pages_update 1 \<lparr>p_Name = None, p_Task = None, p_Week = None,
                                  p_Planned_Hours = Some 2\<rparr>]\<rparr>) \<and>
   \<not> at_most_one (snd (upsert_allocation ''t1'' ''Task'' ''w1'' ''2026-[W]02'' 2 dup_store))"
proof -
  have d: "distinct (map page_id (allocs dup_store))"
    by code_simp
  have u: "upsert_allocation ''t1'' ''Task'' ''w1'' ''2026-[W]02'' 2 dup_store =
     (''updated'',
      \<lparr>allocs = [\<lparr>page_id = 1, alloc_name = ''first'', task_rel = [''t1''],
                   week_rel = [''w1''], planned_hours = Some 2\<rparr>,
                 \<lparr>page_id = 2, alloc_name = ''second'', task_rel = [''t1''],
                   week_rel = [''w1''], planned_hours = Some 7\<rparr>],
       writes = [Pages_update 1 \<lparr>p_Name = None, p_Task = None, p_Week = None,
                                  p_Planned_Hours = Some 2\<rparr>]\<rparr>)"
    by code_simp
  have "\<not> at_most_one dup_store"
  proof
    assume "at_most_one dup_store"
    then have "length (databases_query ''t1'' ''w1'' dup_store) \<le> 1"
      unfolding at_most_one_def by blast
    then show False
      by (simp add: databases_query_def dup_store_def)
  qed
  with upsert_duplicates_kept [OF d u] d u show ?thesis
    by simp
qed

section \<open>The weeks of a task\<close>

lemma instant_shift: "instant (d\<lparr>ordinal := ordinal d + k\<rparr>) = instant d + k * 86400000000"
  by (simp add: instant_def algebra_simps)

lemma rrule_iter_Nil_iff:
  "rrule_iter d e = [] \<longleftrightarrow> MAXORDINAL < ordinal d \<or> instant e < instant d"
  by (subst rrule_iter.simps) simp

lemma rrule_iter_Cons:
  "\<not> (MAXORDINAL < ordinal d \<or> instant e < instant d) \<Longrightarrow>
   rrule_iter d e = d # rrule_iter (d\<lparr>ordinal := ordinal d + 7\<rparr>) e"
  by (subst rrule_iter.simps) simp

lemma rrule_iter_nth:
  "k < length (rrule_iter d e) \<Longrightarrow> rrule_iter d e ! k = d\<lparr>ordinal := ordinal d + 7 * int k\<rparr>"
proof (induction d e arbitrary: k rule: rrule_iter.induct)
  case (1 d until)
  show ?case
  proof (cases "MAXORDINAL < ordinal d \<or> instant until < instant d")
    case True
    with "1.prems" show ?thesis by (simp add: rrule_iter_Nil_iff [THEN iffD2])
  next
    case False
    note step = rrule_iter_Cons [OF False]
    show ?thesis
    proof (cases k)
      case 0
      then show ?thesis by (simp add: step)
    next
      case (Suc j)
      with "1.prems" have "j < length (rrule_iter (d\<lparr>ordinal := ordinal d + 7\<rparr>) until)"
        by (simp add: step)
      from "1.IH" [OF False this] Suc show ?thesis
        by (simp add: step algebra_simps)
    qed
  qed
qed

lemma rrule_iter_bounds:
  "x \<in> set (rrule_iter d e) \<Longrightarrow> instant x \<le> instant e \<and> ordinal x \<le> MAXORDINAL"
proof (induction d e rule: rrule_iter.induct)
  case (1 d until)
  show ?case
  proof (cases "MAXORDINAL < ordinal d \<or> instant until < instant d")
    case True
    with "1.prems" show ?thesis by (simp add: rrule_iter_Nil_iff [THEN iffD2])
  next
    case False
    with "1.prems" "1.IH" show ?thesis
      by (auto simp add: rrule_iter_Cons [OF False])
  qed
qed

lemma rrule_iter_last:
  "rrule_iter d e \<noteq> [] \<Longrightarrow>
   MAXORDINAL < ordinal (last (rrule_iter d e)) + 7 \<or>
   instant e < instant (last (rrule_iter d e)) + 7 * 86400000000"
proof (induction d e rule: rrule_iter.induct)
  case (1 d until)
  from "1.prems" have False: "\<not> (MAXORDINAL < ordinal d \<or> instant until < instant d)"
    by (simp add: rrule_iter_Nil_iff)
  note step = rrule_iter_Cons [OF False]
  show ?case
  proof (cases "rrule_iter (d\<lparr>ordinal := ordinal d + 7\<rparr>) until = []")
    case True
    then have "MAXORDINAL < ordinal d + 7 \<or> instant until < instant d + 7 * 86400000000"
      by (simp add: rrule_iter_Nil_iff instant_shift)
    with True show ?thesis by (simp add: step)
  next
    case False
    from "1.IH" [OF \<open>\<not> (MAXORDINAL < ordinal d \<or> instant until < instant d)\<close> False] False
    show ?thesis by (simp add: step)
  qed
qed

lemma weekday_first_monday:
  "weekday (first_monday s) = 0 \<and> ordinal s \<le> ordinal (first_monday s) \<and>
   ordinal (first_monday s) < ordinal s + 7 \<and>
   (weekday s = 0 \<longrightarrow> ordinal (first_monday s) = ordinal s)"
  unfolding first_monday_def weekday_def by (simp; presburger)

lemma mondays_between_eq:
  assumes "(utcoffset s = None) = (utcoffset e = None)"
    and "1 \<le> ordinal s" and "ordinal (first_monday s) \<le> MAXORDINAL"
  shows "mondays_between s e = Inr (rrule_iter (first_monday s) e)"
proof (cases "weekday s = 0")
  case True
  then have "first_monday s = s\<lparr>micros := micros s - micros s mod 1000000\<rparr>"
    by (simp add: first_monday_def)
  with True assms(1) show ?thesis
    by (simp add: mondays_between_def rrule_weekly_mo_def weekday_def)
next
  case False
  have wd: "0 \<le> weekday s" "weekday s < 7"
    by (simp_all add: weekday_def)
  then have m: "(7 - weekday s) mod 7 = 7 - weekday s"
    using False by (intro mod_pos_pos_trivial) simp_all
  then have m': "(- weekday s) mod 7 = 7 - weekday s"
    by simp
  have ord: "ordinal (first_monday s) = ordinal s + (7 - weekday s)"
    by (simp add: first_monday_def m')
  let ?s' = "s\<lparr>ordinal := ordinal s + (7 - weekday s)\<rparr>"
  have add: "add_days s (7 - weekday s) = Inr ?s'"
    using assms(2,3) wd ord by (simp add: add_days_def Let_def)
  have wd': "weekday ?s' = 0"
    using weekday_first_monday [of s] ord by (simp add: weekday_def)
  have fm: "first_monday s = ?s'\<lparr>micros := micros s - micros s mod 1000000\<rparr>"
    using m' by (cases s) (simp add: first_monday_def)
  have wd0: "weekday (?s'\<lparr>micros := micros s - micros s mod 1000000\<rparr>) = 0"
    using wd' by (simp add: weekday_def)
  have "rrule_weekly_mo ?s' e = Inr (rrule_iter (first_monday s) e)"
    unfolding rrule_weekly_mo_def fm Let_def using assms(1) wd0 by (cases s) simp
  with False add show ?thesis
    by (simp add: mondays_between_def)
qed

text \<open>
  C2 (as amended).  Let \<open>start\<close> and \<open>due\<close> be both naive or both aware, \<open>start\<close> a
  valid date, and let the first Monday on or after \<open>start\<close> (at \<open>start\<close>'s time of
  day, in whole seconds) lie in the supported years and not after \<open>due\<close>.  Then
  \<open>mondays_between\<close> returns a non-empty list: its first element is that first
  Monday (on \<open>start\<close>'s own date when \<open>start\<close> is a Monday), element \<open>k\<close> is \<open>k\<close> weeks
  later, every element is a Monday not later than \<open>due\<close>, the list is ascending,
  and the Monday one week after the last element is later than \<open>due\<close> (or beyond
  the supported years).  The list ends with the last Monday not later than
  \<open>due\<close>, not with the first Monday on or after \<open>due\<close>.
\<close>

theorem mondays_between_weekly:
  assumes "(utcoffset s = None) = (utcoffset e = None)"
    and "1 \<le> ordinal s" and "ordinal (first_monday s) \<le> MAXORDINAL"
    and "instant (first_monday s) \<le> instant e"
  shows "\<exists>ms. mondays_between s e = Inr ms \<and> ms \<noteq> [] \<and>
     (\<forall>k < length ms.
        ms ! k = (first_monday s)\<lparr>ordinal := ordinal (first_monday s) + 7 * int k\<rparr>) \<and>
     (\<forall>d \<in> set ms. weekday d = 0 \<and> instant d \<le> instant e) \<and>
     sorted_wrt (\<lambda>a b. instant a < instant b) ms \<and>
     (MAXORDINAL < ordinal (last ms) + 7 \<or> instant e < instant (last ms) + 7 * 86400000000) \<and>
     weekday (first_monday s) = 0 \<and> ordinal s \<le> ordinal (first_monday s) \<and>
     ordinal (first_monday s) < ordinal s + 7 \<and>
     (weekday s = 0 \<longrightarrow> ordinal (first_monday s) = ordinal s)"
proof -
  let ?m = "first_monday s"
  let ?ms = "rrule_iter ?m e"
  have eq: "mondays_between s e = Inr ?ms"
    by (rule mondays_between_eq [OF assms(1,2,3)])
  have ne: "?ms \<noteq> []"
    using assms(3,4) by (simp add: rrule_iter_Nil_iff)
  have nth: "\<forall>k < length ?ms. ?ms ! k = ?m\<lparr>ordinal := ordinal ?m + 7 * int k\<rparr>"
    by (simp add: rrule_iter_nth)
  have m0: "weekday ?m = 0"
    using weekday_first_monday [of s] by simp
  have mon: "\<forall>d \<in> set ?ms. weekday d = 0 \<and> instant d \<le> instant e"
  proof
    fix d assume d: "d \<in> set ?ms"
    then obtain k where "k < length ?ms" "d = ?ms ! k"
      by (auto simp add: in_set_conv_nth)
    with nth have "d = ?m\<lparr>ordinal := ordinal ?m + 7 * int k\<rparr>" by simp
    then have "weekday d = 0"
      using m0 by (simp add: weekday_def) presburger
    with rrule_iter_bounds [OF d] show "weekday d = 0 \<and> instant d \<le> instant e"
      by simp
  qed
  have asc: "sorted_wrt (\<lambda>a b. instant a < instant b) ?ms"
    unfolding sorted_wrt_iff_nth_less using nth by (simp add: instant_shift)
  show ?thesis
    using eq ne nth mon asc rrule_iter_last [OF ne] weekday_first_monday [of s]
    by blast
qed

theorem mondays_between_weekly_witness:
  "instant (first_monday (midnight 2026 1 6)) \<le> instant (midnight 2026 1 21) \<and>
   first_monday (midnight 2026 1 6) = midnight 2026 1 12 \<and>
   mondays_between (midnight 2026 1 6) (midnight 2026 1 21) =
     Inr [midnight 2026 1 12, midnight 2026 1 19] \<and>
   (\<exists>ms. mondays_between (midnight 2026 1 6) (midnight 2026 1 21) = Inr ms \<and>
      weekday (last ms) = 0)"
proof -
  have h1: "(utcoffset (midnight 2026 1 6) = None) = (utcoffset (midnight 2026 1 21) = None)"
    by (simp add: midnight_def)
  have h2: "1 \<le> ordinal (midnight 2026 1 6)"
    by code_simp
  have h3: "ordinal (first_monday (midnight 2026 1 6)) \<le> MAXORDINAL"
    by code_simp
  have h4: "instant (first_monday (midnight 2026 1 6)) \<le> instant (midnight 2026 1 21)"
    by code_simp
  have v: "first_monday (midnight 2026 1 6) = midnight 2026 1 12"
    "mondays_between (midnight 2026 1 6) (midnight 2026 1 21) =
       Inr [midnight 2026 1 12, midnight 2026 1 19]"
    by code_simp+
  from mondays_between_weekly [OF h1 h2 h3 h4] obtain ms where
    "mondays_between (midnight 2026 1 6) (midnight 2026 1 21) = Inr ms" "ms \<noteq> []"
    "\<forall>d \<in> set ms. weekday d = 0 \<and> instant d \<le> instant (midnight 2026 1 21)"
    by blast
  then have "\<exists>ms. mondays_between (midnight 2026 1 6) (midnight 2026 1 21) = Inr ms \<and>
      weekday (last ms) = 0"
    by (metis last_in_set)
  with h4 v show ?thesis by simp
qed

text \<open>
  C2, as stated, fails.  Start Monday 2026-01-05 and Due Wednesday 2026-01-07: the
  first Monday on or after Due is 2026-01-12, and the sequence the specification words
  has two elements, but \<open>mondays_between\<close> yields 2026-01-05 only.
\<close>

theorem mondays_stop_at_due:
  "weekday (midnight 2026 1 5) = 0 \<and>
   instant (first_monday (midnight 2026 1 5)) \<le> instant (midnight 2026 1 7) \<and>
   mondays_between (midnight 2026 1 5) (midnight 2026 1 7) = Inr [midnight 2026 1 5] \<and>
   spec_weeks (midnight 2026 1 5) (midnight 2026 1 7) =
     [midnight 2026 1 5, midnight 2026 1 12] \<and>
   first_monday (midnight 2026 1 7) = midnight 2026 1 12"
  by code_simp


section \<open>The concrete scenario\<close>

text \<open>
  C5.  For the task with Start 2026-01-05 (a Monday), Due 2026-01-19 and 10
  estimated hours, the weeks are the three Mondays 2026-01-05, 2026-01-12 and
  2026-01-19, with the labels 2026-[W]02, 2026-[W]03 and 2026-[W]04; a run on an
  empty store creates three pages holding the floats 3.33, 3.33 and 3.34, and
  the three stored numbers add up to exactly 10.
\<close>

theorem scenario_2026_buckets:
  "weeks_of scenario_task =
     Inr [midnight 2026 1 5, midnight 2026 1 12, midnight 2026 1 19] \<and>
   map date_isoformat [midnight 2026 1 5, midnight 2026 1 12, midnight 2026 1 19] =
     [''2026-01-05'', ''2026-01-12'', ''2026-01-19''] \<and>
   map iso_week_label [midnight 2026 1 5, midnight 2026 1 12, midnight 2026 1 19] =
     [''2026-[W]02'', ''2026-[W]03'', ''2026-[W]04''] \<and>
   weekday (midnight 2026 1 5) = 0 \<and>
   run True False scenario_idx Map.empty [scenario_task] empty_store =
     Inr (Done 3 0,
       \<lparr>allocs =
          [\<lparr>page_id = 1, alloc_name = ''Write'' @ name_sep @ ''2026-[W]02'',
            task_rel = [''t1''], week_rel = [''wk02''],
            planned_hours = Some (fl (333 / 100))\<rparr>,
           \<lparr>page_id = 2, alloc_name = ''Write'' @ name_sep @ ''2026-[W]03'',
            task_rel = [''t1''], week_rel = [''wk03''],
            planned_hours = Some (fl (333 / 100))\<rparr>,
           \<lparr>page_id = 3, alloc_name = ''Write'' @ name_sep @ ''2026-[W]04'',
            task_rel = [''t1''], week_rel = [''wk04''],
            planned_hours = Some (fl (334 / 100))\<rparr>],
        writes =
          [Pages_create
             \<lparr>p_Name = Some (''Write'' @ name_sep @ ''2026-[W]02''), p_Task = Some [''t1''],
              p_Week = Some [''wk02''], p_Planned_Hours = Some (fl (333 / 100))\<rparr>,
           Pages_create
             \<lparr>p_Name = Some (''Write'' @ name_sep @ ''2026-[W]03''), p_Task = Some [''t1''],
              p_Week = Some [''wk03''], p_Planned_Hours = Some (fl (333 / 100))\<rparr>,
           Pages_create
             \<lparr>p_Name = Some (''Write'' @ name_sep @ ''2026-[W]04''), p_Task = Some [''t1''],
              p_Week = Some [''wk04''], p_Planned_Hours = Some (fl (334 / 100))\<rparr>]\<rparr>) \<and>
   fl (333 / 100) + fl (333 / 100) + fl (334 / 100) = 10"
  by code_simp

theorem scenario_2026_buckets_witness:
  "map iso_week_label [midnight 2026 1 5, midnight 2026 1 12, midnight 2026 1 19] =
     [''2026-[W]02'', ''2026-[W]03'', ''2026-[W]04''] \<and>
   fl (333 / 100) + fl (333 / 100) + fl (334 / 100) = 10"
  using scenario_2026_buckets by simp

section \<open>Resolving a bucket to a week\<close>

text \<open>
  C3.  The date index is consulted only when it has the key "Week Start", the
  name of the property, which a date index keyed by ISO dates does not have.  With
  an empty label index and a date index that maps 2026-01-05 to a week page, the
  bucket of Monday 2026-01-05 gets no week id, and the run makes no write for it
  and ends normally.
\<close>

theorem date_fallback_not_taken:
  "date_isoformat (midnight 2026 1 5) = ''2026-01-05'' \<and>
   [''2026-01-05'' \<mapsto> ''wk02''] (date_isoformat (midnight 2026 1 5)) = Some ''wk02'' \<and>
   weeks_of (scenario_task\<lparr>due := midnight 2026 1 5\<rparr>) = Inr [midnight 2026 1 5] \<and>
   resolve_week Map.empty [''2026-01-05'' \<mapsto> ''wk02''] (midnight 2026 1 5) = None \<and>
   run True False Map.empty [''2026-01-05'' \<mapsto> ''wk02'']
     [scenario_task\<lparr>due := midnight 2026 1 5\<rparr>] empty_store = Inr (Done 0 0, empty_store)"
  by code_simp

theorem date_fallback_not_taken_witness:
  "resolve_week Map.empty [''2026-01-05'' \<mapsto> ''wk02''] (midnight 2026 1 5) = None"
  using date_fallback_not_taken by simp

section \<open>The loop over the buckets\<close>

lemma upsert_writes:
  assumes "upsert_allocation tid tname wid wlabel h st = (res, st')"
  shows "\<exists>wr. writes st' = writes st @ [wr] \<and> written_hours wr = Some (py_round2 h)"
    and "(if res = ''created'' then 1 else 0) + (if res = ''updated'' then 1 else (0::nat)) = 1"
  using assms
  by (auto simp add: upsert_allocation_def pages_update_def pages_create_def
      written_hours_def split: list.splits)

text \<open>
  The loop sends one write per bucket that resolves, in order, carrying
  \<open>round(hrs, 2)\<close> of that bucket's hours, and counts each of them once.
\<close>

lemma alloc_loop_writes:
  assumes "alloc_loop ibt ibd tid nm est n pw cr i ws (st, c, u) = (st', c', u')"
  shows "\<exists>new. writes st' = writes st @ new \<and>
           map written_hours new =
             map (\<lambda>(j, w). Some (py_round2 (bucket_hours est n pw cr j)))
               (resolved ibt ibd i ws) \<and>
           c' + u' = c + u + length (resolved ibt ibd i ws)"
  using assms
proof (induction ws arbitrary: i st c u)
  case Nil
  then show ?case by (simp add: resolved_def)
next
  case (Cons w ws)
  show ?case
  proof (cases "falsy (resolve_week ibt ibd w)")
    case True
    with Cons.prems have
      "alloc_loop ibt ibd tid nm est n pw cr (Suc i) ws (st, c, u) = (st', c', u')"
      by simp
    from Cons.IH [OF this] True show ?thesis
      by (simp add: resolved_def enumerate_simps)
  next
    case False
    obtain res st1 where up:
      "upsert_allocation tid nm (case_option [] id (resolve_week ibt ibd w)) (iso_week_label w)
         (bucket_hours est n pw cr i) st = (res, st1)"
      by (cases "upsert_allocation tid nm (case_option [] id (resolve_week ibt ibd w))
         (iso_week_label w) (bucket_hours est n pw cr i) st") auto
    let ?c1 = "c + (if res = ''created'' then 1 else 0)"
    let ?u1 = "u + (if res = ''updated'' then 1 else 0)"
    from Cons.prems False up have
      "alloc_loop ibt ibd tid nm est n pw cr (Suc i) ws (st1, ?c1, ?u1) = (st', c', u')"
      by simp
    from Cons.IH [OF this] obtain new where new:
      "writes st' = writes st1 @ new"
      "map written_hours new =
         map (\<lambda>(j, w). Some (py_round2 (bucket_hours est n pw cr j)))
           (resolved ibt ibd (Suc i) ws)"
      "c' + u' = ?c1 + ?u1 + length (resolved ibt ibd (Suc i) ws)"
      by blast
    from upsert_writes(1) [OF up] obtain wr where wr:
      "writes st1 = writes st @ [wr]"
      "written_hours wr = Some (py_round2 (bucket_hours est n pw cr i))"
      by blast
    have cnt: "?c1 + ?u1 = c + u + 1"
      using upsert_writes(2) [OF up] by simp
    have res_eq: "resolved ibt ibd i (w # ws) = (i, w) # resolved ibt ibd (Suc i) ws"
      using False by (simp add: resolved_def)
    have "writes st' = writes st @ (wr # new)"
      using new(1) wr(1) by simp
    moreover have "map written_hours (wr # new) =
        map (\<lambda>(j, w). Some (py_round2 (bucket_hours est n pw cr j)))
          (resolved ibt ibd i (w # ws))"
      using new(2) wr(2) res_eq by simp
    moreover have "c' + u' = c + u + length (resolved ibt ibd i (w # ws))"
      using new(3) cnt res_eq by simp
    ultimately show ?thesis by blast
  qed
qed

lemma run_tasks_single:
  "run_tasks ibt ibd [t] (st, c, u) =
     (case weeks_of t of
        Inl err \<Rightarrow> Inl (err, st)
      | Inr weeks \<Rightarrow>
          Inr (alloc_loop ibt ibd (task_id t) (name_of t) (est_of t) (max 1 (length weeks))
                 (per_week_of (est_of t) (max 1 (length weeks)))
                 (carry_of (est_of t) (max 1 (length weeks))) 0 weeks (st, c, u)))"
  by (simp add: Let_def split: sum.split)

lemma run_tasks_single_ok:
  assumes "weeks_of t = Inr weeks"
  shows "\<exists>st' c' u'. run_tasks ibt ibd [t] (st, c, u) = Inr (st', c', u')"
  unfolding run_tasks_single assms
  by (simp add: prod_eq_iff)

lemma py_round2_zero: "py_round2 0 = 0"
  by (simp add: py_round2_def fl_def round_half_even_def)

section \<open>Tasks without an estimate\<close>

text \<open>
  C8.  For a task whose estimate is absent, zero or negative, every bucket of
  its weeks has 0.0 hours, and the run sends one write (a create or an update)
  for each bucket that resolves to a week, each carrying 0.0 planned hours, and
  counts each of them.
\<close>

theorem zero_estimate_buckets:
  assumes "hours_est t = None \<or> est_of t \<le> 0"
    and "weeks_of t = Inr weeks"
    and "n = max 1 (length weeks)"
    and "run_tasks ibt ibd [t] (st, c, u) = Inr (st', c', u')"
  shows "(\<forall>i < length weeks.
            bucket_hours (est_of t) n (per_week_of (est_of t) n) (carry_of (est_of t) n) i = 0) \<and>
         map written_hours (drop (length (writes st)) (writes st')) =
           replicate (length (resolved ibt ibd 0 weeks)) (Some 0) \<and>
         take (length (writes st)) (writes st') = writes st \<and>
         c' + u' = c + u + length (resolved ibt ibd 0 weeks)"
proof -
  have est: "est_of t \<le> 0"
    using assms(1) by (auto simp add: est_of_def)
  have zero: "bucket_hours (est_of t) n (per_week_of (est_of t) n) (carry_of (est_of t) n) i = 0"
    for i
    using est by (simp add: bucket_hours_def per_week_of_def)
  have loop: "alloc_loop ibt ibd (task_id t) (name_of t) (est_of t) n
                 (per_week_of (est_of t) n) (carry_of (est_of t) n) 0 weeks (st, c, u)
              = (st', c', u')"
    using assms(2,3,4) unfolding run_tasks_single by simp
  from alloc_loop_writes [OF loop] obtain new where new:
    "writes st' = writes st @ new"
    "map written_hours new =
       map (\<lambda>(j, w). Some (py_round2 (bucket_hours (est_of t) n (per_week_of (est_of t) n)
         (carry_of (est_of t) n) j))) (resolved ibt ibd 0 weeks)"
    "c' + u' = c + u + length (resolved ibt ibd 0 weeks)"
    by blast
  have "map written_hours new = replicate (length (resolved ibt ibd 0 weeks)) (Some 0)"
    unfolding new(2) by (simp add: zero py_round2_zero case_prod_unfold map_replicate_const)
  with new(1,3) zero show ?thesis by simp
qed

theorem zero_estimate_buckets_witness:
  "map written_hours (writes (fst (projr (run_tasks scenario_idx Map.empty
      [scenario_task\<lparr>hours_est := None\<rparr>] (empty_store, 0, 0))))) =
     [Some 0, Some 0, Some 0]"
proof -
  let ?t = "scenario_task\<lparr>hours_est := None\<rparr>"
  let ?weeks = "[midnight 2026 1 5, midnight 2026 1 12, midnight 2026 1 19]"
  have h1: "hours_est ?t = None \<or> est_of ?t \<le> 0"
    by (simp add: scenario_task_def)
  have h2: "weeks_of ?t = Inr ?weeks"
    by code_simp
  have h3: "(3::nat) = max 1 (length ?weeks)"
    by simp
  have r: "length (resolved scenario_idx Map.empty 0 ?weeks) = 3"
    by code_simp
  from run_tasks_single_ok [OF h2] obtain st' c' u' where
    h4: "run_tasks scenario_idx Map.empty [?t] (empty_store, 0, 0) = Inr (st', c', u')"
    by blast
  from zero_estimate_buckets [OF h1 h2 h3 h4] r h4 show ?thesis
    by (simp add: empty_store_def numeral_3_eq_3)
qed

section \<open>Running twice\<close>

lemma upsert_allocs:
  "allocs (snd (upsert_allocation t nm w lbl h st)) = step (t, nm, w, lbl, h) (allocs st)"
  by (simp add: upsert_allocation_def step_def target_def databases_query_def upd_def
      pages_update_def pages_create_def set_properties_def split: list.split)

lemma upsert_result:
  "fst (upsert_allocation t nm w lbl h st) =
     (if target t w (allocs st) = None then ''created'' else ''updated'')"
  by (simp add: upsert_allocation_def target_def databases_query_def split: list.split)

lemma target_upd [simp]: "target t w (upd i v as) = target t w as"
proof -
  have "filter (\<lambda>a. t \<in> set (task_rel a) \<and> w \<in> set (week_rel a)) (upd i v as) =
        upd i v (filter (\<lambda>a. t \<in> set (task_rel a) \<and> w \<in> set (week_rel a)) as)"
    by (induction as) (simp_all add: upd_def)
  then show ?thesis
    by (simp add: target_def upd_def split: list.split)
qed

lemma target_append:
  "target t w (as @ bs) = (case target t w as of Some i \<Rightarrow> Some i | None \<Rightarrow> target t w bs)"
  by (simp add: target_def split: list.split)

lemma upd_append: "upd i v (as @ bs) = upd i v as @ upd i v bs"
  by (simp add: upd_def)

lemma upd_other: "\<forall>b \<in> set bs. page_id b \<noteq> i \<Longrightarrow> upd i v bs = bs"
  by (simp add: upd_def map_idI)

lemma target_in_set: "target t w as = Some i \<Longrightarrow> \<exists>a \<in> set as. page_id a = i"
proof -
  assume a: "target t w as = Some i"
  then obtain x xs where f: "filter (\<lambda>a. t \<in> set (task_rel a) \<and> w \<in> set (week_rel a)) as = x # xs"
    and i: "page_id x = i"
    by (auto simp add: target_def split: list.splits)
  have "x \<in> set (filter (\<lambda>a. t \<in> set (task_rel a) \<and> w \<in> set (week_rel a)) as)"
    unfolding f by simp
  then have "x \<in> set as" by simp
  with i show ?thesis by blast
qed

lemma fold_max_ge: "(m::nat) \<le> fold max xs m"
  by (induction xs arbitrary: m) (auto intro: order_trans [OF max.cobounded2])

lemma fold_max_mem: "x \<in> set xs \<Longrightarrow> (x::nat) \<le> fold max xs m"
proof (induction xs arbitrary: m)
  case Nil
  then show ?case by simp
next
  case (Cons y ys)
  show ?case
  proof (cases "x = y")
    case True
    have "y \<le> max y m" by simp
    also have "\<dots> \<le> fold max ys (max y m)" by (rule fold_max_ge)
    finally show ?thesis using True by simp
  next
    case False
    with Cons show ?thesis by simp
  qed
qed

lemma fresh_page_id_gt: "a \<in> set as \<Longrightarrow> page_id a < fresh_page_id as"
  unfolding fresh_page_id_def using fold_max_mem [of "page_id a" "map page_id as" 0]
  by simp

subsection \<open>Stores in which every call finds a page\<close>

lemma all_found_Cons:
  "all_found (op # ops) as \<longleftrightarrow>
     (case op of (t, nm, w, lbl, h) \<Rightarrow> target t w as \<noteq> None) \<and> all_found ops as"
  by (simp add: all_found_def)

lemma all_found_upd [simp]: "all_found ops (upd i v as) = all_found ops as"
  by (simp add: all_found_def)

lemma assigns_upd [simp]: "assigns ops (upd i v as) = assigns ops as"
  by (simp add: assigns_def)

lemma all_found_step:
  "all_found ops as \<Longrightarrow> op \<in> set ops \<Longrightarrow> all_found ops (step op as)"
  by (cases op) (auto simp add: all_found_def step_def split: option.splits)

lemma apply_assigns_Nil: "apply_assigns [] as = as"
  by (simp add: apply_assigns_def)

lemma apply_assigns_Cons: "apply_assigns ((i, v) # A) as = apply_assigns A (upd i v as)"
  by (simp add: apply_assigns_def)

lemma all_found_apply_assigns: "all_found ops (apply_assigns A as) = all_found ops as"
proof (induction A arbitrary: as)
  case Nil
  show ?case by (simp add: apply_assigns_Nil)
next
  case (Cons x A)
  obtain i v where x: "x = (i, v)" by (cases x) auto
  show ?case unfolding x apply_assigns_Cons Cons.IH by simp
qed

lemma assigns_apply_assigns: "assigns ops (apply_assigns A as) = assigns ops as"
proof (induction A arbitrary: as)
  case Nil
  show ?case by (simp add: apply_assigns_Nil)
next
  case (Cons x A)
  obtain i v where x: "x = (i, v)" by (cases x) auto
  show ?case unfolding x apply_assigns_Cons Cons.IH by simp
qed

lemma steps_all_found:
  "all_found ops as \<Longrightarrow> fold step ops as = apply_assigns (assigns ops as) as"
proof (induction ops arbitrary: as)
  case Nil
  then show ?case by (simp add: apply_assigns_Nil assigns_def)
next
  case (Cons op ops)
  obtain t nm w lbl h where op: "op = (t, nm, w, lbl, h)"
    by (cases op) auto
  from Cons.prems obtain i where i: "target t w as = Some i" and cl: "all_found ops as"
    by (auto simp add: all_found_Cons op)
  have st: "step op as = upd i (py_round2 h) as"
    by (simp add: step_def op i)
  have "fold step (op # ops) as = fold step ops (upd i (py_round2 h) as)"
    by (simp add: st)
  also have "\<dots> = apply_assigns (assigns ops as) (upd i (py_round2 h) as)"
    using Cons.IH [of "upd i (py_round2 h) as"] cl by simp
  also have "\<dots> = apply_assigns (assigns (op # ops) as) as"
    by (simp add: apply_assigns_Cons assigns_def op i)
  finally show ?case .
qed

lemma created_count_all_found: "all_found ops as \<Longrightarrow> created_count ops as = 0"
proof (induction ops arbitrary: as)
  case Nil
  then show ?case by simp
next
  case (Cons op ops)
  obtain t nm w lbl h where op: "op = (t, nm, w, lbl, h)"
    by (cases op) auto
  from Cons.prems obtain i where i: "target t w as = Some i" and cl: "all_found ops as"
    by (auto simp add: all_found_Cons op)
  have st: "step op as = upd i (py_round2 h) as"
    by (simp add: step_def op i)
  have "created_count ops (step op as) = 0"
    unfolding st using Cons.IH [of "upd i (py_round2 h) as"] cl by simp
  then show ?case
    by (simp add: i op)
qed

subsection \<open>Assignments are idempotent\<close>

lemma apply_assigns_map: "apply_assigns A as = map (assign_page A) as"
proof (induction A arbitrary: as)
  case Nil
  then show ?case by (simp add: apply_assigns_Nil assign_page_def)
next
  case (Cons x A)
  obtain i v where x: "x = (i, v)" by (cases x) auto
  have "apply_assigns (x # A) as = apply_assigns A (upd i v as)"
    by (simp add: apply_assigns_Cons x)
  also have "\<dots> = map (assign_page A) (upd i v as)"
    by (rule Cons.IH)
  also have "\<dots> = map (assign_page (x # A)) as"
    by (simp add: upd_def assign_page_def x)
  finally show ?case .
qed

lemma assign_page_snoc:
  "assign_page (A @ [(i, v)]) a =
     (if page_id (assign_page A a) = i then (assign_page A a)\<lparr>planned_hours := Some v\<rparr>
      else assign_page A a)"
  by (simp add: assign_page_def)

lemma last_value_snoc:
  "last_value (A @ [(j, v)]) i = (if j = i then Some v else last_value A i)"
  by (simp add: last_value_def)

lemma assign_page_fields:
  "page_id (assign_page A a) = page_id a \<and>
   alloc_name (assign_page A a) = alloc_name a \<and>
   task_rel (assign_page A a) = task_rel a \<and>
   week_rel (assign_page A a) = week_rel a \<and>
   planned_hours (assign_page A a) =
     (case last_value A (page_id a) of None \<Rightarrow> planned_hours a | Some v \<Rightarrow> Some v)"
proof (induction A rule: rev_induct)
  case Nil
  then show ?case by (simp add: assign_page_def last_value_def)
next
  case (snoc x A)
  obtain i v where x: "x = (i, v)" by (cases x) auto
  from snoc show ?case
    unfolding x assign_page_snoc last_value_snoc by simp
qed

lemma assign_page_idem: "assign_page A (assign_page A a) = assign_page A a"
proof (rule allocation.equality)
  show "planned_hours (assign_page A (assign_page A a)) = planned_hours (assign_page A a)"
    by (simp add: assign_page_fields split: option.split)
qed (simp_all add: assign_page_fields)

lemma apply_assigns_idem: "apply_assigns A (apply_assigns A as) = apply_assigns A as"
  by (simp add: apply_assigns_map assign_page_idem)

subsection \<open>Adding the pages a run creates beforehand\<close>

lemma prepopulate:
  "\<exists>E. (\<forall>e \<in> set E. \<forall>a \<in> set as. page_id a < page_id e) \<and>
        all_found ops (as @ E) \<and>
        fold step ops (as @ E) = fold step ops as"
proof (induction ops arbitrary: as)
  case Nil
  have "(\<forall>e \<in> set []. \<forall>a \<in> set as. page_id a < page_id e) \<and>
        all_found [] (as @ []) \<and> fold step [] (as @ []) = fold step [] as"
    by (simp add: all_found_def)
  then show ?case by blast
next
  case (Cons op ops)
  obtain t nm w lbl h where op: "op = (t, nm, w, lbl, h)"
    by (cases op) auto
  show ?case
  proof (cases "target t w as")
    case (Some i)
    have st: "step op as = upd i (py_round2 h) as"
      by (simp add: step_def op Some)
    from Cons.IH [of "upd i (py_round2 h) as"] obtain E where E:
      "\<forall>e \<in> set E. \<forall>a \<in> set (upd i (py_round2 h) as). page_id a < page_id e"
      "all_found ops (upd i (py_round2 h) as @ E)"
      "fold step ops (upd i (py_round2 h) as @ E) = fold step ops (upd i (py_round2 h) as)"
      by blast
    have "map page_id (upd i (py_round2 h) as) = map page_id as"
      by (induction as) (simp_all add: upd_def)
    then have "set (map page_id (upd i (py_round2 h) as)) = set (map page_id as)"
      by simp
    then have ids: "page_id ` set (upd i (py_round2 h) as) = page_id ` set as"
      by simp
    have gt: "\<forall>e \<in> set E. \<forall>a \<in> set as. page_id a < page_id e"
    proof (intro ballI)
      fix e a assume e: "e \<in> set E" and a: "a \<in> set as"
      then have "page_id a \<in> page_id ` set (upd i (py_round2 h) as)"
        unfolding ids by simp
      then obtain b where "b \<in> set (upd i (py_round2 h) as)" "page_id b = page_id a"
        by auto
      with E(1) e show "page_id a < page_id e" by metis
    qed
    from target_in_set [OF Some] obtain a0 where a0: "a0 \<in> set as" "page_id a0 = i"
      by blast
    have "\<forall>e \<in> set E. page_id e \<noteq> i"
      using gt a0 by fastforce
    then have updE: "upd i (py_round2 h) E = E"
      by (rule upd_other)
    have tg: "target t w (as @ E) = Some i"
      by (simp add: target_append Some)
    have st2: "step op (as @ E) = upd i (py_round2 h) as @ E"
      by (simp add: step_def op tg upd_append updE)
    have "all_found ops (upd i (py_round2 h) (as @ E))"
      using E(2) by (simp add: upd_append updE)
    then have "all_found ops (as @ E)"
      by simp
    then have af: "all_found (op # ops) (as @ E)"
      by (simp add: all_found_Cons op tg)
    have "fold step (op # ops) (as @ E) = fold step (op # ops) as"
      by (simp add: st st2 E(3))
    with gt af show ?thesis by blast
  next
    case None
    let ?r = "\<lparr>page_id = fresh_page_id as, alloc_name = nm @ name_sep @ lbl,
               task_rel = [t], week_rel = [w], planned_hours = Some (py_round2 h)\<rparr>"
    have st: "step op as = as @ [?r]"
      by (simp add: step_def op None)
    from Cons.IH [of "as @ [?r]"] obtain E where E:
      "\<forall>e \<in> set E. \<forall>a \<in> set (as @ [?r]). page_id a < page_id e"
      "all_found ops ((as @ [?r]) @ E)"
      "fold step ops ((as @ [?r]) @ E) = fold step ops (as @ [?r])"
      by blast
    have gt: "\<forall>e \<in> set (?r # E). \<forall>a \<in> set as. page_id a < page_id e"
      using E(1) fresh_page_id_gt [of _ as] by auto
    have tr: "target t w [?r] = Some (fresh_page_id as)"
      by (simp add: target_def)
    have tg: "target t w (as @ ?r # E) = Some (fresh_page_id as)"
      by (simp add: target_append None target_append [of t w "[?r]" E, simplified] tr)
    have no_as: "\<forall>b \<in> set as. page_id b \<noteq> fresh_page_id as"
      using fresh_page_id_gt [of _ as] by fastforce
    have no_E: "\<forall>b \<in> set E. page_id b \<noteq> fresh_page_id as"
      using E(1) by fastforce
    have "upd (fresh_page_id as) (py_round2 h) (as @ ?r # E) = as @ ?r # E"
      using upd_other [OF no_as] upd_other [OF no_E]
      by (simp add: upd_append upd_append [of _ _ "[?r]" E, simplified]) (simp add: upd_def)
    then have st2: "step op (as @ ?r # E) = as @ ?r # E"
      by (simp add: step_def op tg)
    have af: "all_found (op # ops) (as @ ?r # E)"
      using E(2) by (simp add: all_found_Cons op tg)
    have "fold step (op # ops) (as @ ?r # E) = fold step (op # ops) as"
      using E(3) by (simp add: st st2)
    with gt af show ?thesis by blast
  qed
qed

text \<open>
  Running the same calls again changes no page, and every call of the second
  pass finds a page.
\<close>

lemma steps_twice:
  "fold step ops (fold step ops as) = fold step ops as \<and> all_found ops (fold step ops as)"
proof -
  from prepopulate [of as ops] obtain E where
    af: "all_found ops (as @ E)" and eq: "fold step ops (as @ E) = fold step ops as"
    by blast
  let ?X = "as @ E"
  let ?A = "assigns ops ?X"
  have s1: "fold step ops as = apply_assigns ?A ?X"
    using steps_all_found [OF af] eq by simp
  have af1: "all_found ops (fold step ops as)"
    unfolding s1 all_found_apply_assigns by (rule af)
  have "fold step ops (fold step ops as) =
        apply_assigns (assigns ops (fold step ops as)) (fold step ops as)"
    by (rule steps_all_found [OF af1])
  also have "\<dots> = apply_assigns ?A (apply_assigns ?A ?X)"
    unfolding s1 assigns_apply_assigns ..
  also have "\<dots> = apply_assigns ?A ?X"
    by (rule apply_assigns_idem)
  finally show ?thesis
    using af1 s1 by simp
qed

subsection \<open>The loops as sequences of calls\<close>

lemma created_count_append:
  "created_count (xs @ ys) as = created_count xs as + created_count ys (fold step xs as)"
  by (induction xs arbitrary: as) simp_all

lemma bucket_calls_Nil: "bucket_calls ibt ibd tid nm est n pw cr i [] = []"
  by (simp add: bucket_calls_def resolved_def)

lemma bucket_calls_Cons:
  "bucket_calls ibt ibd tid nm est n pw cr i (w # ws) =
     (if falsy (resolve_week ibt ibd w)
      then bucket_calls ibt ibd tid nm est n pw cr (Suc i) ws
      else (tid, nm, case_option [] id (resolve_week ibt ibd w), iso_week_label w,
            bucket_hours est n pw cr i) # bucket_calls ibt ibd tid nm est n pw cr (Suc i) ws)"
  by (simp add: bucket_calls_def resolved_def)

lemma alloc_loop_steps:
  assumes "alloc_loop ibt ibd tid nm est n pw cr i ws (st, c, u) = (st', c', u')"
  shows "allocs st' = fold step (bucket_calls ibt ibd tid nm est n pw cr i ws) (allocs st) \<and>
         c' = c + created_count (bucket_calls ibt ibd tid nm est n pw cr i ws) (allocs st) \<and>
         c' + u' = c + u + length (bucket_calls ibt ibd tid nm est n pw cr i ws)"
  using assms
proof (induction ws arbitrary: i st c u)
  case Nil
  then show ?case by (simp add: bucket_calls_Nil)
next
  case (Cons w ws)
  show ?case
  proof (cases "falsy (resolve_week ibt ibd w)")
    case True
    with Cons.prems have
      "alloc_loop ibt ibd tid nm est n pw cr (Suc i) ws (st, c, u) = (st', c', u')"
      by simp
    from Cons.IH [OF this] True show ?thesis
      by (simp add: bucket_calls_Cons)
  next
    case False
    let ?wid = "case_option [] id (resolve_week ibt ibd w)"
    let ?h = "bucket_hours est n pw cr i"
    let ?op = "(tid, nm, ?wid, iso_week_label w, ?h)"
    let ?r = "upsert_allocation tid nm ?wid (iso_week_label w) ?h st"
    let ?c1 = "c + (if fst ?r = ''created'' then 1 else 0)"
    let ?u1 = "u + (if fst ?r = ''updated'' then 1 else 0)"
    from Cons.prems False have
      "alloc_loop ibt ibd tid nm est n pw cr (Suc i) ws (snd ?r, ?c1, ?u1) = (st', c', u')"
      by (simp add: case_prod_unfold Let_def split del: if_split)
    note ih = Cons.IH [OF this]
    have a1: "allocs (snd ?r) = step ?op (allocs st)"
      by (rule upsert_allocs)
    have c1: "?c1 = c + (if target tid ?wid (allocs st) = None then 1 else 0)"
      by (simp add: upsert_result)
    have cu: "?c1 + ?u1 = c + u + 1"
      by (simp add: upsert_result)
    have bc: "bucket_calls ibt ibd tid nm est n pw cr i (w # ws) =
              ?op # bucket_calls ibt ibd tid nm est n pw cr (Suc i) ws"
      using False by (simp add: bucket_calls_Cons)
    show ?thesis
      unfolding bc using ih a1 c1 cu by simp
  qed
qed

lemma run_tasks_steps:
  assumes "run_tasks ibt ibd ts (st, c, u) = Inr (st', c', u')"
  shows "allocs st' = fold step (concat (map (task_calls ibt ibd) ts)) (allocs st) \<and>
         c' = c + created_count (concat (map (task_calls ibt ibd) ts)) (allocs st) \<and>
         c' + u' = c + u + length (concat (map (task_calls ibt ibd) ts)) \<and>
         (\<forall>t \<in> set ts. \<exists>weeks. weeks_of t = Inr weeks)"
  using assms
proof (induction ts arbitrary: st c u)
  case Nil
  then show ?case by simp
next
  case (Cons t ts)
  from Cons.prems obtain weeks where w: "weeks_of t = Inr weeks"
    by (cases "weeks_of t") simp_all
  let ?n = "max 1 (length weeks)"
  let ?loop = "alloc_loop ibt ibd (task_id t) (name_of t) (est_of t) ?n
                 (per_week_of (est_of t) ?n) (carry_of (est_of t) ?n) 0 weeks (st, c, u)"
  obtain st1 c1 u1 where l: "?loop = (st1, c1, u1)"
    by (cases ?loop) auto
  from Cons.prems w l have r: "run_tasks ibt ibd ts (st1, c1, u1) = Inr (st', c', u')"
    by (simp add: Let_def)
  have tc: "task_calls ibt ibd t =
      bucket_calls ibt ibd (task_id t) (name_of t) (est_of t) ?n
        (per_week_of (est_of t) ?n) (carry_of (est_of t) ?n) 0 weeks"
    by (simp add: task_calls_def w Let_def)
  from alloc_loop_steps [OF l] have s1:
    "allocs st1 = fold step (task_calls ibt ibd t) (allocs st)"
    "c1 = c + created_count (task_calls ibt ibd t) (allocs st)"
    "c1 + u1 = c + u + length (task_calls ibt ibd t)"
    unfolding tc by simp_all
  from Cons.IH [OF r] s1 w show ?case
    by (simp add: created_count_append)
qed

lemma run_tasks_ok:
  assumes "\<forall>t \<in> set ts. \<exists>weeks. weeks_of t = Inr weeks"
  shows "\<exists>st' c' u'. run_tasks ibt ibd ts (st, c, u) = Inr (st', c', u')"
  using assms
proof (induction ts arbitrary: st c u)
  case Nil
  then show ?case by simp
next
  case (Cons t ts)
  then obtain weeks where w: "weeks_of t = Inr weeks"
    by auto
  let ?n = "max 1 (length weeks)"
  let ?loop = "alloc_loop ibt ibd (task_id t) (name_of t) (est_of t) ?n
                 (per_week_of (est_of t) ?n) (carry_of (est_of t) ?n) 0 weeks (st, c, u)"
  obtain st1 c1 u1 where l: "?loop = (st1, c1, u1)"
    by (cases ?loop) auto
  from Cons.prems have "\<forall>t \<in> set ts. \<exists>weeks. weeks_of t = Inr weeks"
    by simp
  from Cons.IH [OF this, of st1 c1 u1] w l show ?case
    by (simp add: Let_def)
qed

text \<open>
  C4.  When a run over given tasks and week indexes ends normally, a second run
  over the same tasks and indexes, started on the store the first one left,
  ends normally too, creates nothing (its created count is 0, and it updates as
  many pages as the first run created and updated together), and leaves every
  page, with its planned hours, as the first run left it.
\<close>

theorem run_twice:
  assumes "run job RUN_IF_NO_JOB ibt ibd tasks st = Inr (Done c u, st1)"
    and "job2 \<or> RUN_IF_NO_JOB"
  shows "\<exists>st2. run job2 RUN_IF_NO_JOB ibt ibd tasks st1 = Inr (Done 0 (c + u), st2) \<and>
           allocs st2 = allocs st1"
proof -
  let ?ops = "concat (map (task_calls ibt ibd) tasks)"
  from assms(1) have r1: "run_tasks ibt ibd tasks (st, 0, 0) = Inr (st1, c, u)"
    by (auto simp add: run_def split: if_splits sum.splits)
  note f1 = run_tasks_steps [OF r1]
  from f1 have ok: "\<forall>t \<in> set tasks. \<exists>weeks. weeks_of t = Inr weeks"
    by simp
  from run_tasks_ok [OF ok, of ibt ibd st1 0 0] obtain st2 c2 u2 where
    r2: "run_tasks ibt ibd tasks (st1, 0, 0) = Inr (st2, c2, u2)"
    by blast
  note f2 = run_tasks_steps [OF r2]
  have a1: "allocs st1 = fold step ?ops (allocs st)"
    using f1 by simp
  have tw: "fold step ?ops (allocs st1) = allocs st1" "all_found ?ops (allocs st1)"
    unfolding a1 using steps_twice [of ?ops "allocs st"] by simp_all
  have "allocs st2 = allocs st1"
    using f2 tw(1) by simp
  moreover have "c2 = 0"
    using f2 created_count_all_found [OF tw(2)] by simp
  moreover have "u2 = c + u"
    using f1 f2 \<open>c2 = 0\<close> by simp
  ultimately show ?thesis
    using r2 assms(2) by (auto simp add: run_def)
qed

theorem run_twice_witness:
  "\<exists>st1 st2.
     run True False scenario_idx Map.empty [scenario_task\<lparr>due := midnight 2026 1 5\<rparr>]
       empty_store = Inr (Done 1 0, st1) \<and>
     run True False scenario_idx Map.empty [scenario_task\<lparr>due := midnight 2026 1 5\<rparr>]
       st1 = Inr (Done 0 1, st2) \<and>
     allocs st2 = allocs st1"
proof -
  let ?ps = "\<lparr>p_Name = Some (''Write'' @ name_sep @ ''2026-[W]02''), p_Task = Some [''t1''],
              p_Week = Some [''wk02''], p_Planned_Hours = Some 10\<rparr>"
  let ?st1 = "\<lparr>allocs = [\<lparr>page_id = 1, alloc_name = ''Write'' @ name_sep @ ''2026-[W]02'',
                 task_rel = [''t1''], week_rel = [''wk02''], planned_hours = Some 10\<rparr>],
              writes = [Pages_create ?ps]\<rparr>"
  have h: "run True False scenario_idx Map.empty [scenario_task\<lparr>due := midnight 2026 1 5\<rparr>]
       empty_store = Inr (Done 1 0, ?st1)"
    by code_simp
  from run_twice [OF h, of True] h show ?thesis
    by auto
qed

section \<open>The single-week fallback\<close>

lemma fl_est_of: "fl (est_of t) = est_of t"
  by (simp add: est_of_def fl_idem split: option.split)

lemma carry_of_one: "fl est = est \<Longrightarrow> carry_of est (Suc 0) = est"
  by (simp add: carry_of_def fsub_def fmul_def float_of_int_def)

text \<open>When Due precedes the first Monday on or after Start, there is no Monday.\<close>

lemma no_monday_before_due:
  assumes "(utcoffset s = None) = (utcoffset e = None)"
    and "1 \<le> ordinal s" and "ordinal (first_monday s) \<le> MAXORDINAL"
    and "instant e < instant (first_monday s)"
  shows "mondays_between s e = Inr []"
  using mondays_between_eq [OF assms(1,2,3)] assms(4) by (simp add: rrule_iter_Nil_iff)

text \<open>
  C7.  For a task whose span yields no Monday and whose estimate is not
  negative, the weeks are the single-element list holding the raw Start
  datetime, so \<open>n = 1\<close>; the hours of that bucket are the whole estimate; and the
  run makes, for this task, the one call of \<open>upsert_allocation\<close> for the week of
  Start's own label with the whole estimate as hours (or none, when that week
  does not resolve).
\<close>

theorem single_bucket_fallback:
  assumes "mondays_between (start t) (due t) = Inr []" and "0 \<le> est_of t"
  shows "weeks_of t = Inr [start t] \<and>
         max 1 (length [start t]) = 1 \<and>
         bucket_hours (est_of t) 1 (per_week_of (est_of t) 1) (carry_of (est_of t) 1) 0 =
           est_of t \<and>
         run_tasks ibt ibd [t] (st, c, u) =
           Inr (if falsy (resolve_week ibt ibd (start t)) then (st, c, u)
                else (case upsert_allocation (task_id t) (name_of t)
                             (case_option [] id (resolve_week ibt ibd (start t)))
                             (iso_week_label (start t)) (est_of t) st of
                        (res, st1) \<Rightarrow>
                          (st1, c + (if res = ''created'' then 1 else 0),
                           u + (if res = ''updated'' then 1 else 0))))"
proof -
  have w: "weeks_of t = Inr [start t]"
    using assms(1) by (simp add: weeks_of_def)
  have h: "bucket_hours (est_of t) 1 (per_week_of (est_of t) 1) (carry_of (est_of t) 1) 0 =
           est_of t"
    using assms(2) by (simp add: bucket_hours_def per_week_of_def carry_of_one [OF fl_est_of])
  have "run_tasks ibt ibd [t] (st, c, u) =
      Inr (alloc_loop ibt ibd (task_id t) (name_of t) (est_of t) 1
             (per_week_of (est_of t) 1) (carry_of (est_of t) 1) 0 [start t] (st, c, u))"
    unfolding run_tasks_single w by simp
  also have "alloc_loop ibt ibd (task_id t) (name_of t) (est_of t) 1
             (per_week_of (est_of t) 1) (carry_of (est_of t) 1) 0 [start t] (st, c, u) =
      (if falsy (resolve_week ibt ibd (start t)) then (st, c, u)
       else (case upsert_allocation (task_id t) (name_of t)
                    (case_option [] id (resolve_week ibt ibd (start t)))
                    (iso_week_label (start t)) (est_of t) st of
               (res, st1) \<Rightarrow>
                 (st1, c + (if res = ''created'' then 1 else 0),
                  u + (if res = ''updated'' then 1 else 0))))"
    using h by (simp add: Let_def split del: if_split cong: if_cong)
  finally show ?thesis
    using w h by simp
qed

theorem single_bucket_fallback_witness:
  "mondays_between (midnight 2026 1 6) (midnight 2026 1 8) = Inr [] \<and>
   weeks_of (scenario_task\<lparr>start := midnight 2026 1 6, due := midnight 2026 1 8\<rparr>) =
     Inr [midnight 2026 1 6] \<and>
   bucket_hours 10 1 (per_week_of 10 1) (carry_of 10 1) 0 = 10"
proof -
  let ?t = "scenario_task\<lparr>start := midnight 2026 1 6, due := midnight 2026 1 8\<rparr>"
  have m: "mondays_between (midnight 2026 1 6) (midnight 2026 1 8) = Inr []"
    by code_simp
  then have h1: "mondays_between (start ?t) (due ?t) = Inr []"
    by simp
  have e: "est_of ?t = 10"
    by code_simp
  then have h2: "0 \<le> est_of ?t"
    by simp
  from single_bucket_fallback [OF h1 h2] m e show ?thesis
    by simp
qed

section \<open>Splitting the estimate\<close>

lemma rrule_iter_length:
  "length (rrule_iter d e) \<le> nat ((MAXORDINAL - ordinal d) div 7 + 1)"
proof (induction d e rule: rrule_iter.induct)
  case (1 d until)
  show ?case
  proof (cases "MAXORDINAL < ordinal d \<or> instant until < instant d")
    case True
    then show ?thesis by (simp add: rrule_iter_Nil_iff [THEN iffD2])
  next
    case False
    define x where "x = MAXORDINAL - ordinal d"
    have x0: "0 \<le> x"
      using False by (simp add: x_def)
    then have "0 \<le> x div 7"
      by simp
    moreover have "(x - 7) div 7 = x div 7 - 1"
      by simp
    ultimately have "nat ((x - 7) div 7 + 1) + 1 = nat (x div 7 + 1)"
      by simp
    moreover have "MAXORDINAL - (ordinal d + 7) = x - 7"
      by (simp add: x_def)
    ultimately have "nat ((MAXORDINAL - (ordinal d + 7)) div 7 + 1) + 1 =
        nat ((MAXORDINAL - ordinal d) div 7 + 1)"
      by (simp add: x_def)
    with "1.IH" [OF False] show ?thesis
      by (simp add: rrule_iter_Cons [OF False])
  qed
qed

lemma rrule_weekly_mo_length:
  assumes "rrule_weekly_mo d e = Inr ms" and "1 \<le> ordinal d"
  shows "length ms \<le> 521723"
proof -
  let ?d0 = "d\<lparr>micros := micros d - micros d mod 1000000\<rparr>"
  let ?f = "?d0\<lparr>ordinal := ordinal ?d0 + (7 - weekday ?d0) mod 7\<rparr>"
  from assms(1) have ms: "ms = rrule_iter ?f e"
    by (simp add: rrule_weekly_mo_def Let_def split: if_splits)
  have "1 \<le> ordinal ?f"
    using assms(2) by simp
  then have "(MAXORDINAL - ordinal ?f) div 7 + 1 \<le> 521723"
    by (simp add: MAXORDINAL_def)
  with rrule_iter_length [of ?f e] show ?thesis
    unfolding ms by linarith
qed

lemma weeks_of_length:
  assumes "weeks_of t = Inr weeks" and "1 \<le> ordinal (start t)"
  shows "1 \<le> length weeks" and "length weeks \<le> 521723"
proof -
  from assms(1) obtain ms where ms: "mondays_between (start t) (due t) = Inr ms"
    and w: "weeks = (if ms = [] then [start t] else ms)"
    by (auto simp add: weeks_of_def split: sum.splits)
  show "1 \<le> length weeks"
    by (cases ms) (simp_all add: w)
  have "length ms \<le> 521723"
  proof (cases "weekday (start t) = 0")
    case True
    with ms have "rrule_weekly_mo (start t) (due t) = Inr ms"
      by (simp add: mondays_between_def)
    from rrule_weekly_mo_length [OF this assms(2)] show ?thesis .
  next
    case False
    have wd: "0 \<le> weekday (start t)" "weekday (start t) < 7"
      by (simp_all add: weekday_def)
    from ms False obtain s' where a: "add_days (start t) (7 - weekday (start t)) = Inr s'"
      and r: "rrule_weekly_mo s' (due t) = Inr ms"
      by (auto simp add: mondays_between_def split: sum.splits)
    from a have "ordinal s' = ordinal (start t) + (7 - weekday (start t))"
      by (auto simp add: add_days_def Let_def split: if_splits)
    with assms(2) wd have "1 \<le> ordinal s'"
      by simp
    from rrule_weekly_mo_length [OF r this] show ?thesis .
  qed
  then show "length weeks \<le> 521723"
    by (simp add: w)
qed

text \<open>
  C1 (as amended).  Let a task with a valid Start have the estimate \<open>H > 0\<close> and
  \<open>n\<close> weeks.  Then \<open>1 \<le> n\<close>; the weekly hours are the float quotient \<open>H / n\<close> and
  the carry is \<open>H - round(H / n, 2) * (n - 1)\<close> in float arithmetic; every bucket but
  the last gets the weekly hours and the last one the carry; each bucket that
  resolves is written with \<open>round(hrs, 2)\<close> of its hours; and, for \<open>H\<close> up to
  \<open>10^6\<close>, the rounded weekly hours taken \<open>n - 1\<close> times plus the carry differ from
  \<open>H\<close> by at most \<open>10^-9\<close>, whatever \<open>n\<close> is.  It is this sum, with the other buckets
  rounded to two decimals, that meets the estimate; the sum of the hours as
  emitted does not.
\<close>

theorem carry_to_last_bucket:
  assumes "weeks_of t = Inr weeks" and "1 \<le> ordinal (start t)" and "0 < est_of t"
    and "n = length weeks" and "H = est_of t"
  shows "1 \<le> n \<and> max 1 (length weeks) = n \<and>
     per_week_of H n = fdiv H (float_of_int (int n)) \<and>
     carry_of H n =
       fsub H (fmul (py_round2 (fdiv H (float_of_int (int n)))) (float_of_int (int n - 1))) \<and>
     (\<forall>i < n. bucket_hours H n (per_week_of H n) (carry_of H n) i =
        (if i = n - 1 then carry_of H n else per_week_of H n)) \<and>
     (\<forall>st c u st' c' u'.
        run_tasks ibt ibd [t] (st, c, u) = Inr (st', c', u') \<longrightarrow>
        map written_hours (drop (length (writes st)) (writes st')) =
          map (\<lambda>(i, w). Some (py_round2 (if i = n - 1 then carry_of H n else per_week_of H n)))
            (resolved ibt ibd 0 weeks)) \<and>
     (H \<le> 10 ^ 6 \<longrightarrow>
        \<bar>of_nat (n - 1) * py_round2 (per_week_of H n) + carry_of H n - H\<bar> \<le> 1 / 10 ^ 9)"
proof -
  have H: "0 < H" using assms(3,5) by simp
  have n1: "1 \<le> n" and nB: "n \<le> 521723"
    using weeks_of_length [OF assms(1,2)] assms(4) by simp_all
  have mx: "max 1 (length weeks) = n"
    using n1 assms(4) by simp
  have pw: "per_week_of H n = fdiv H (float_of_int (int n))"
    using H by (simp add: per_week_of_def)
  have ca: "carry_of H n =
       fsub H (fmul (py_round2 (fdiv H (float_of_int (int n)))) (float_of_int (int n - 1)))"
    by (simp add: carry_of_def pw)
  have bh: "bucket_hours H n (per_week_of H n) (carry_of H n) i =
        (if i = n - 1 then carry_of H n else per_week_of H n)" for i
    using H by (simp add: bucket_hours_def)
  have wr: "map written_hours (drop (length (writes st)) (writes st')) =
          map (\<lambda>(i, w). Some (py_round2 (if i = n - 1 then carry_of H n else per_week_of H n)))
            (resolved ibt ibd 0 weeks)"
    if r: "run_tasks ibt ibd [t] (st, c, u) = Inr (st', c', u')" for st c u st' c' u'
  proof -
    have "alloc_loop ibt ibd (task_id t) (name_of t) H n (per_week_of H n) (carry_of H n) 0
            weeks (st, c, u) = (st', c', u')"
      using r mx unfolding run_tasks_single assms(1) by (simp add: assms(5))
    from alloc_loop_writes [OF this] obtain new where
      "writes st' = writes st @ new"
      "map written_hours new =
         map (\<lambda>(j, w). Some (py_round2 (bucket_hours H n (per_week_of H n) (carry_of H n) j)))
           (resolved ibt ibd 0 weeks)"
      by blast
    then show ?thesis
      unfolding bh by simp
  qed
  have sm: "\<bar>of_nat (n - 1) * py_round2 (per_week_of H n) + carry_of H n - H\<bar> \<le> 1 / 10 ^ 9"
    if "H \<le> 10 ^ 6"
    using H that n1 by (rule carry_sum_bound) (use nB in simp)
  show ?thesis
    using n1 mx pw ca bh wr sm by blast
qed

theorem carry_to_last_bucket_witness:
  "weeks_of scenario_task = Inr [midnight 2026 1 5, midnight 2026 1 12, midnight 2026 1 19] \<and>
   est_of scenario_task = 10 \<and>
   carry_of 10 3 =
     fsub 10 (fmul (py_round2 (fdiv 10 (float_of_int (int 3)))) (float_of_int (int 3 - 1))) \<and>
   \<bar>of_nat (3 - 1) * py_round2 (per_week_of 10 3) + carry_of 10 3 - 10\<bar> \<le> 1 / 10 ^ 9"
proof -
  let ?weeks = "[midnight 2026 1 5, midnight 2026 1 12, midnight 2026 1 19]"
  have h1: "weeks_of scenario_task = Inr ?weeks"
    by code_simp
  have h2: "1 \<le> ordinal (start scenario_task)"
    by code_simp
  have e: "est_of scenario_task = 10"
    by code_simp
  then have h3: "0 < est_of scenario_task"
    by simp
  have h4: "(3::nat) = length ?weeks"
    by simp
  note c = carry_to_last_bucket [OF h1 h2 h3 h4 e [symmetric], of Map.empty Map.empty]
  have c4: "carry_of 10 3 =
     fsub 10 (fmul (py_round2 (fdiv 10 (float_of_int (int 3)))) (float_of_int (int 3 - 1)))"
    using c by (elim conjE) assumption
  have c7: "(10::rat) \<le> 10 ^ 6 \<longrightarrow>
     \<bar>of_nat (3 - 1) * py_round2 (per_week_of 10 3) + carry_of 10 3 - 10\<bar> \<le> 1 / 10 ^ 9"
    using c by (elim conjE) assumption
  have "(10::rat) \<le> 10 ^ 6"
    by simp
  with c7 have "\<bar>of_nat (3 - 1) * py_round2 (per_week_of 10 3) + carry_of 10 3 - 10\<bar>
      \<le> 1 / 10 ^ 9"
    by (rule mp)
  with h1 e c4 show ?thesis
    by (intro conjI)
qed

text \<open>
  C1, as stated, fails.  With an estimate of 0.125 hours over the three weeks of
  January 2026, the hours of the three buckets are 0.041666..., 0.041666... and
  the carry 0.045: they add up to 0.12833..., not to 0.125.  The three stored
  numbers are 0.04 each and add up to 0.12.
\<close>

theorem emitted_sum_not_estimate:
  "est_of (scenario_task\<lparr>hours_est := Some (1 / 8)\<rparr>) = 1 / 8 \<and>
   weeks_of (scenario_task\<lparr>hours_est := Some (1 / 8)\<rparr>) =
     Inr [midnight 2026 1 5, midnight 2026 1 12, midnight 2026 1 19] \<and>
   map (bucket_hours (1 / 8) 3 (per_week_of (1 / 8) 3) (carry_of (1 / 8) 3)) [0, 1, 2] =
     [fl (1 / 24), fl (1 / 24), fsub (1 / 8) (fmul (fl (4 / 100)) 2)] \<and>
   1 / 10 ^ 9 < \<bar>fl (1 / 24) + fl (1 / 24) + fsub (1 / 8) (fmul (fl (4 / 100)) 2) - 1 / 8\<bar> \<and>
   map planned_hours
     (allocs (snd (projr (run True False scenario_idx Map.empty
        [scenario_task\<lparr>hours_est := Some (1 / 8)\<rparr>] empty_store)))) =
     [Some (fl (4 / 100)), Some (fl (4 / 100)), Some (fl (4 / 100))] \<and>
   1 / 10 ^ 9 < \<bar>fl (4 / 100) + fl (4 / 100) + fl (4 / 100) - 1 / 8\<bar>"
  by code_simp

end
